theory Spec2Isabelle
  imports Main "HOL-Library.Word" "HOL-Library.AList"
begin

section \<open>SimpleGC: a conservative mark and sweep collector (gc.cpp)\<close>

text \<open>
  The collector of \<^verbatim>\<open>src/SimpleGC/gc.cpp\<close> runs on x86-64: \<^verbatim>\<open>void *\<close>,
  \<^verbatim>\<open>uint64_t\<close>, \<^verbatim>\<open>size_t\<close> and \<^verbatim>\<open>mach_vm_size_t\<close> are 64-bit words whose
  arithmetic wraps around, and memory is an array of bytes indexed by such words.

  Each function of gc.cpp is a function from the state of the process to its new state.
  What the platform and libc answer (the stack region, the data segment, the blocks of
  \<^verbatim>\<open>calloc\<close>) is a parameter, and so are the registers and the stack pointer at the
  moment the collector reads them. \<^verbatim>\<open>exit\<close> and an access through a null pointer end
  the process: the call ends with a fault. A traversal that does not return has no
  result. The output of \<^verbatim>\<open>debug_printf\<close> is not part of the model.
\<close>

type_synonym addr = "64 word"
type_synonym byte = "8 word"
type_synonym memory = "addr \<Rightarrow> byte"

text \<open>
  \<^verbatim>\<open>typedef std::unordered_map<void *, size_t> heapmap\<close>: a table from a block's base
  address to its size. The model is an association list; the order of the list is the
  (unspecified) order in which the C++ container is iterated. \<^verbatim>\<open>find\<close> is
  \<^const>\<open>map_of\<close>, \<^verbatim>\<open>operator[]\<close> followed by an assignment is \<^const>\<open>AList.update\<close>,
  and \<^verbatim>\<open>insert\<close> adds an entry only when the key is absent.
\<close>

type_synonym heapmap = "(addr \<times> addr) list"

definition heapmap_assign :: "addr \<Rightarrow> addr \<Rightarrow> heapmap \<Rightarrow> heapmap" where
  "heapmap_assign k v A = AList.update k v A"

definition heapmap_insert :: "addr \<times> addr \<Rightarrow> heapmap \<Rightarrow> heapmap" where
  "heapmap_insert e M = (case map_of M (fst e) of None \<Rightarrow> M @ [e] | Some v \<Rightarrow> M)"

subsection \<open>Memory\<close>

text \<open>
  \<^verbatim>\<open>*p\<close> for \<^verbatim>\<open>void **p\<close>: the eight bytes at \<open>p\<close>, little-endian. \<open>store64\<close> is
  the matching store of the program that uses the collector; \<open>memset\<close> is the libc
  function.
\<close>

definition load64 :: "memory \<Rightarrow> addr \<Rightarrow> addr" where
  "load64 m p = foldr (\<lambda>i acc. ucast (m (p + i)) + 256 * acc) [0, 1, 2, 3, 4, 5, 6, 7] 0"

definition store64 :: "memory \<Rightarrow> addr \<Rightarrow> addr \<Rightarrow> memory" where
  "store64 m p v = (\<lambda>q. if q - p < 8 then ucast (drop_bit (8 * unat (q - p)) v) else m q)"

definition memset :: "memory \<Rightarrow> addr \<Rightarrow> byte \<Rightarrow> addr \<Rightarrow> memory" where
  "memset m a c n = (\<lambda>p. if p - a < n then c else m p)"

text \<open>Stores of consecutive words: \<^verbatim>\<open>buffer[0] = w0; buffer[1] = w1; ...\<close>\<close>

fun store_words :: "memory \<Rightarrow> addr \<Rightarrow> addr list \<Rightarrow> memory" where
  "store_words m p [] = m"
| "store_words m p (w # ws) = store_words (store64 m p w) (p + 8) ws"

subsection \<open>Process state\<close>

text \<open>
  The calls the collector makes to itself and to the C allocator, in order:
  \<^verbatim>\<open>internal_alloc(size)\<close>, \<^verbatim>\<open>calloc\<close> for a number of bytes with the pointer it
  returned, \<^verbatim>\<open>gc_collect()\<close>, and \<^verbatim>\<open>free(p)\<close>. The source keeps no such list; it is
  the observable behaviour that claims of the form "is invoked" or "exactly once" speak
  about.
\<close>

datatype event =
    EvInternalAlloc addr
  | EvCalloc addr addr
  | EvCollect
  | EvFree addr

text \<open>The file-level statics of gc.cpp, memory, and the record of calls.\<close>

record gc_state =
  gc_initialized :: bool
  stack_start :: addr
  stack_length :: addr
  data_segment_start :: addr
  data_segment_length :: addr
  allocations :: heapmap
  max_heap_size :: addr
  current_allocated :: addr
  verbose_logging :: bool
  overwrite_reclaimed_blocks :: bool
  mem :: memory
  calls :: "event list"

text \<open>
  The registers that \<^verbatim>\<open>get_registers\<close> copies and the stack pointer that
  \<^verbatim>\<open>get_stack_pointer\<close> reads, at the moment the collector looks at them.
\<close>

record cpu =
  rax :: addr
  rbx :: addr
  rcx :: addr
  rdx :: addr
  rsi :: addr
  rdi :: addr
  r8 :: addr
  r9 :: addr
  r10 :: addr
  r11 :: addr
  r12 :: addr
  r13 :: addr
  r14 :: addr
  r15 :: addr
  rsp :: addr

text \<open>
  What the platform answers: \<^verbatim>\<open>mach_vm_region\<close> (its return code, and the start and
  size of the region found for an address), \<^verbatim>\<open>getsegbyname("__DATA")\<close> (\<open>None\<close> is
  the null pointer, otherwise \<^verbatim>\<open>vmaddr\<close> and \<^verbatim>\<open>vmsize\<close>),
  \<^verbatim>\<open>_dyld_get_image_vmaddr_slide(0)\<close>, and \<^verbatim>\<open>calloc\<close> (the address it returns for a
  size in a state of the process, 0 for the null pointer). They are parameters of the
  model.
\<close>

record platform =
  mach_vm_region :: "addr \<Rightarrow> nat \<times> addr \<times> addr"
  getsegbyname_DATA :: "(addr \<times> addr) option"
  dyld_get_image_vmaddr_slide :: addr
  calloc :: "gc_state \<Rightarrow> addr \<Rightarrow> addr"

text \<open>
  How a call can end other than by returning: \<^verbatim>\<open>exit(n)\<close>, or a read or a write
  through a null pointer. The C standard leaves such an access undefined; on the platform
  of gc.cpp page zero is never mapped, and the operating system kills the process at the
  access. Either way the process is over and no statement after the call runs.
\<close>

datatype fault = Exit nat | NullDereference

subsection \<open>\<^verbatim>\<open>get_stack_pointer\<close>, \<^verbatim>\<open>get_registers\<close>\<close>

definition get_stack_pointer :: "cpu \<Rightarrow> addr" where
  "get_stack_pointer c = rsp c"

text \<open>
  \<^verbatim>\<open>get_registers\<close> fills slots 0 to 13 of a buffer of 15 pointers that
  \<^verbatim>\<open>gc_collect\<close> obtained zeroed from \<^verbatim>\<open>calloc(sizeof(void *), 15)\<close>; slot 14 stays
  zero. \<open>get_registers c\<close> is the list of the 15 words that the buffer holds afterwards,
  which are the words that the scan of the buffer reads (\<open>snapshot_words\<close> proves it
  of a buffer that ends below \<open>2^64\<close>). The allocation of the buffer and the stores
  into it are \<open>snapshot_registers\<close> below.
\<close>

definition get_registers :: "cpu \<Rightarrow> addr list" where
  "get_registers c =
     [rax c, rbx c, rcx c, rdx c, rsi c, rdi c, r8 c, r9 c, r10 c, r11 c, r12 c, r13 c,
      r14 c, r15 c, 0]"

subsection \<open>\<^verbatim>\<open>gc_init\<close>\<close>

definition gc_init :: "platform \<Rightarrow> cpu \<Rightarrow> gc_state \<Rightarrow> fault + gc_state" where
  "gc_init pf c s =
     (if gc_initialized s then Inr s
      else
        let s1 = s\<lparr>gc_initialized := True\<rparr>;
            rsp0 = get_stack_pointer c;
            (kr, address_info, size_info) = mach_vm_region pf rsp0
        in if kr \<noteq> 0 then Inl (Exit 1)
           else
             let s2 = s1\<lparr>stack_start := address_info, stack_length := size_info\<rparr>
             in case getsegbyname_DATA pf of
                  None \<Rightarrow> Inl NullDereference
                | Some (vmaddr, vmsize) \<Rightarrow>
                    Inr (s2\<lparr>data_segment_start := vmaddr + dyld_get_image_vmaddr_slide pf,
                            data_segment_length := vmsize,
                            allocations := []\<rparr>))"

subsection \<open>\<^verbatim>\<open>internal_alloc\<close>\<close>

text \<open>\<^verbatim>\<open>calloc(1, n)\<close>: the platform chooses the address; a block it returns is zeroed.\<close>

definition calloc1 :: "platform \<Rightarrow> gc_state \<Rightarrow> addr \<Rightarrow> addr \<times> gc_state" where
  "calloc1 pf s n =
     (let p = calloc pf s n
      in (p, s\<lparr>mem := (if p = 0 then mem s else memset (mem s) p 0 n),
               calls := calls s @ [EvCalloc n p]\<rparr>))"

definition internal_alloc :: "platform \<Rightarrow> gc_state \<Rightarrow> addr \<Rightarrow> addr \<times> gc_state" where
  "internal_alloc pf s n =
     (let s1 = s\<lparr>calls := calls s @ [EvInternalAlloc n]\<rparr>
      in if max_heap_size s1 > 0 \<and> current_allocated s1 + n > max_heap_size s1
         then (0, s1)
         else calloc1 pf s1 n)"

subsection \<open>\<^verbatim>\<open>gc_collect_scan_block\<close>\<close>

text \<open>
  The addresses \<open>p\<close> that \<^verbatim>\<open>for (void** p = start; p < end; p++)\<close> visits. Stepping a
  pointer past the top of the address space is undefined in C; the loop of the model ends
  there.
\<close>

function region_addrs :: "addr \<Rightarrow> addr \<Rightarrow> addr list" where
  "region_addrs p e =
     (if p < e then p # (if p + 8 \<le> p then [] else region_addrs (p + 8) e) else [])"
  by pat_completeness auto
termination
proof (relation "measure (\<lambda>(p, e). 2 ^ 64 - unat p)")
  show "wf (measure (\<lambda>(p :: addr, e :: addr). 2 ^ 64 - unat p))"
    by simp
next
  fix p e :: addr
  assume "p < e" and "\<not> p + 8 \<le> p"
  then have "unat p < unat (p + 8)"
    by (simp add: not_le word_less_nat_alt)
  moreover have "unat (p + 8) < 2 ^ 64"
    using unsigned_less [of "p + 8", where ?'a = nat] by simp
  ultimately show "((p + 8, e), (p, e)) \<in> measure (\<lambda>(p, e). 2 ^ 64 - unat p)"
    by simp
qed

declare region_addrs.simps [simp del]

text \<open>The words the loop reads from \<open>start\<close> with \<^verbatim>\<open>end = start + length\<close>.\<close>

definition region_words :: "memory \<Rightarrow> addr \<Rightarrow> addr \<Rightarrow> addr list" where
  "region_words m start len = map (load64 m) (region_addrs start (start + len))"

text \<open>
  The body of the loop, over the words still to be read in this call. A word that is a
  key of \<open>allocations\<close> and not yet a key of \<open>marked\<close> is inserted into \<open>marked\<close> and
  its block is scanned by a recursive call before the loop goes on to the next word.
  Scanning only reads memory, so reading the words of a region before the loop and
  reading each word when the loop reaches it give the same values. Not returning is the
  value \<open>None\<close>.
\<close>

partial_function (option) scan_words ::
  "heapmap \<Rightarrow> memory \<Rightarrow> addr list \<Rightarrow> heapmap \<Rightarrow> heapmap option" where
  "scan_words A m ws marked =
     (case ws of
        [] \<Rightarrow> Some marked
      | w # rest \<Rightarrow>
          (case map_of A w of
             None \<Rightarrow> scan_words A m rest marked
           | Some sz \<Rightarrow>
               (case map_of marked w of
                  Some v \<Rightarrow> scan_words A m rest marked
                | None \<Rightarrow>
                    Option.bind
                      (scan_words A m (region_words m w sz) (heapmap_insert (w, sz) marked))
                      (\<lambda>marked'. scan_words A m rest marked'))))"

declare scan_words.simps [code]

definition gc_collect_scan_block ::
  "gc_state \<Rightarrow> addr \<Rightarrow> addr \<Rightarrow> heapmap \<Rightarrow> heapmap option" where
  "gc_collect_scan_block s start len marked =
     scan_words (allocations s) (mem s) (region_words (mem s) start len) marked"

subsection \<open>\<^verbatim>\<open>gc_collect\<close>\<close>

text \<open>
  The buffer for the registers, \<^verbatim>\<open>calloc(sizeof(void *), 15)\<close>, is a request for 120
  bytes. \<^verbatim>\<open>gc_collect\<close> does not test the pointer: when it is null,
  \<^verbatim>\<open>get_registers\<close> stores through the null pointer and the process is killed.
\<close>

definition snapshot_registers :: "platform \<Rightarrow> cpu \<Rightarrow> gc_state \<Rightarrow> fault + addr \<times> gc_state" where
  "snapshot_registers pf c s =
     (let (registers, s1) = calloc1 pf s 120
      in if registers = 0 then Inl NullDereference
         else Inr (registers,
                   s1\<lparr>mem := store_words (mem s1) registers (butlast (get_registers c))\<rparr>))"

text \<open>
  The mark phase: the words of the register buffer, the stack in use, the data segment.
\<close>

definition mark_phase :: "cpu \<Rightarrow> gc_state \<Rightarrow> heapmap option" where
  "mark_phase c s =
     Option.bind (scan_words (allocations s) (mem s) (get_registers c) [])
       (\<lambda>m1. Option.bind
          (gc_collect_scan_block s (get_stack_pointer c)
             (stack_start s + stack_length s - get_stack_pointer c) m1)
          (\<lambda>m2. gc_collect_scan_block s (data_segment_start s) (data_segment_length s) m2))"

text \<open>
  The sweep loop over \<open>allocations\<close>. \<^verbatim>\<open>free\<close> releases the block; the model records
  the call and leaves the bytes as they are, as the tests of main.cpp that read a swept
  block expect.
\<close>

fun sweep_loop :: "heapmap \<Rightarrow> heapmap \<Rightarrow> gc_state \<Rightarrow> addr \<Rightarrow> gc_state \<times> addr" where
  "sweep_loop [] marked s total_swept = (s, total_swept)"
| "sweep_loop (allocation # rest) marked s total_swept =
     (if map_of marked (fst allocation) = None
      then sweep_loop rest marked
             (s\<lparr>mem := (if overwrite_reclaimed_blocks s
                         then memset (mem s) (fst allocation) 0xab (snd allocation)
                         else mem s),
                calls := calls s @ [EvFree (fst allocation)]\<rparr>)
             (total_swept + snd allocation)
      else sweep_loop rest marked s total_swept)"

definition sweep :: "gc_state \<Rightarrow> heapmap \<Rightarrow> gc_state" where
  "sweep s marked =
     (let (s1, total_swept) = sweep_loop (allocations s) marked s 0
      in s1\<lparr>current_allocated := current_allocated s1 - total_swept,
             allocations := marked\<rparr>)"

text \<open>
  \<^verbatim>\<open>gc_collect\<close>: initialisation, the register buffer, the mark phase, the sweep.
  \<^verbatim>\<open>free(registers)\<close> comes after the scan of the buffer and before the scan of the
  stack; the mark phase makes no other call, so the call is recorded after it.
\<close>

definition gc_collect :: "platform \<Rightarrow> cpu \<Rightarrow> gc_state \<Rightarrow> (fault + gc_state) option" where
  "gc_collect pf c s =
     (case gc_init pf c s of
        Inl f \<Rightarrow> Some (Inl f)
      | Inr s0 \<Rightarrow>
          (let s1 = s0\<lparr>calls := calls s0 @ [EvCollect]\<rparr>
           in case snapshot_registers pf c s1 of
                Inl f \<Rightarrow> Some (Inl f)
              | Inr (registers, s2) \<Rightarrow>
                  map_option
                    (\<lambda>marked. Inr (sweep (s2\<lparr>calls := calls s2 @ [EvFree registers]\<rparr>) marked))
                    (mark_phase c s2)))"

subsection \<open>\<^verbatim>\<open>gc_alloc\<close>\<close>

text \<open>The end of \<^verbatim>\<open>gc_alloc\<close>: a non-null pointer is entered into the table.\<close>

definition record_allocation :: "addr \<Rightarrow> addr \<times> gc_state \<Rightarrow> addr \<times> gc_state" where
  "record_allocation n r =
     (let (ptr, s) = r
      in if ptr \<noteq> 0
         then (ptr, s\<lparr>allocations := heapmap_assign ptr n (allocations s),
                      current_allocated := current_allocated s + n\<rparr>)
         else (ptr, s))"

definition gc_alloc ::
  "platform \<Rightarrow> cpu \<Rightarrow> gc_state \<Rightarrow> addr \<Rightarrow> (fault + addr \<times> gc_state) option" where
  "gc_alloc pf c s n =
     (case gc_init pf c s of
        Inl f \<Rightarrow> Some (Inl f)
      | Inr s0 \<Rightarrow>
          (let (ptr, s1) = internal_alloc pf s0 n
           in if ptr = 0
              then (case gc_collect pf c s1 of
                      None \<Rightarrow> None
                    | Some (Inl f) \<Rightarrow> Some (Inl f)
                    | Some (Inr s2) \<Rightarrow>
                        Some (Inr (record_allocation n (internal_alloc pf s2 n))))
              else Some (Inr (record_allocation n (ptr, s1)))))"

subsection \<open>Debug controls\<close>

definition gc_debug_set_max_heap :: "gc_state \<Rightarrow> addr \<Rightarrow> gc_state" where
  "gc_debug_set_max_heap s n = s\<lparr>max_heap_size := n\<rparr>"

definition gc_debug_enable_verbose_logging :: "gc_state \<Rightarrow> bool \<Rightarrow> gc_state" where
  "gc_debug_enable_verbose_logging s flag = s\<lparr>verbose_logging := flag\<rparr>"

definition gc_debug_overwrite_reclaimed_blocks :: "gc_state \<Rightarrow> bool \<Rightarrow> gc_state" where
  "gc_debug_overwrite_reclaimed_blocks s flag = s\<lparr>overwrite_reclaimed_blocks := flag\<rparr>"

section \<open>Specification vocabulary\<close>

subsection \<open>Reachability\<close>

text \<open>
  The blocks reachable from a list of root words: a root word that is a key of the
  table is a reachable block, and so is every key of the table among the words that the
  scanner reads from a reachable block.
\<close>

inductive_set reachable :: "heapmap \<Rightarrow> memory \<Rightarrow> addr list \<Rightarrow> addr set"
  for A :: heapmap and m :: memory and roots :: "addr list" where
  root: "w \<in> set roots \<Longrightarrow> map_of A w = Some n \<Longrightarrow> w \<in> reachable A m roots"
| step: "a \<in> reachable A m roots \<Longrightarrow> map_of A a = Some n \<Longrightarrow>
         w \<in> set (region_words m a n) \<Longrightarrow> map_of A w = Some k \<Longrightarrow>
         w \<in> reachable A m roots"

text \<open>The words of the three root regions, in the order \<^verbatim>\<open>gc_collect\<close> scans them.\<close>

definition root_words :: "cpu \<Rightarrow> gc_state \<Rightarrow> addr list" where
  "root_words c s =
     get_registers c @
     region_words (mem s) (get_stack_pointer c)
       (stack_start s + stack_length s - get_stack_pointer c) @
     region_words (mem s) (data_segment_start s) (data_segment_length s)"

text \<open>
  For a collection that starts in the initialised state \<open>s0\<close>: the pointer that
  \<^verbatim>\<open>calloc\<close> returns for the register buffer, and the state in which the mark phase
  runs, with the registers stored in the buffer.
\<close>

definition register_buffer :: "platform \<Rightarrow> gc_state \<Rightarrow> addr" where
  "register_buffer pf s0 = calloc pf (s0\<lparr>calls := calls s0 @ [EvCollect]\<rparr>) 120"

definition marking_state :: "platform \<Rightarrow> cpu \<Rightarrow> gc_state \<Rightarrow> gc_state" where
  "marking_state pf c s0 =
     (case snapshot_registers pf c (s0\<lparr>calls := calls s0 @ [EvCollect]\<rparr>) of
        Inl f \<Rightarrow> s0
      | Inr r \<Rightarrow> snd r)"

text \<open>
  What one call of the scanner adds to \<open>marked\<close>: entries \<open>new\<close> with fresh, distinct
  keys, copied from the table, reachable from the words scanned, and such that every table
  key among the words scanned, and among the words of each new block, is marked
  afterwards.
\<close>

definition scan_post :: "heapmap \<Rightarrow> memory \<Rightarrow> addr list \<Rightarrow> heapmap \<Rightarrow> heapmap \<Rightarrow> bool" where
  "scan_post A m ws marked new \<longleftrightarrow>
     distinct (map fst new) \<and>
     fst ` set new \<inter> fst ` set marked = {} \<and>
     (\<forall>e \<in> set new. map_of A (fst e) = Some (snd e) \<and> fst e \<in> reachable A m ws) \<and>
     (\<forall>w \<in> set ws. map_of A w \<noteq> None \<longrightarrow> w \<in> fst ` set (marked @ new)) \<and>
     (\<forall>e \<in> set new. \<forall>w \<in> set (region_words m (fst e) (snd e)).
        map_of A w \<noteq> None \<longrightarrow> w \<in> fst ` set (marked @ new))"

subsection \<open>The C allocator's contract and the collector's invariant\<close>

text \<open>
  A block \<open>(a, n)\<close> lies in the address space when \<open>a\<close> is not null and the block
  ends at or below \<open>2^64\<close>; two blocks are apart when their base addresses differ and
  one ends before the other starts.
\<close>

definition block_ok :: "addr \<times> addr \<Rightarrow> bool" where
  "block_ok e \<longleftrightarrow> fst e \<noteq> 0 \<and> unat (fst e) + unat (snd e) \<le> 2 ^ 64"

definition apart :: "addr \<times> addr \<Rightarrow> addr \<times> addr \<Rightarrow> bool" where
  "apart e e' \<longleftrightarrow>
     fst e \<noteq> fst e' \<and>
     (unat (fst e) + unat (snd e) \<le> unat (fst e') \<or> unat (fst e') + unat (snd e') \<le> unat (fst e))"

fun heap_wf :: "heapmap \<Rightarrow> bool" where
  "heap_wf [] = True"
| "heap_wf (e # A) = (block_ok e \<and> list_all (apart e) A \<and> heap_wf A)"

text \<open>
  What libc promises of \<^verbatim>\<open>calloc\<close>: a block it returns lies in the address space and
  is apart from every block that is still allocated. The blocks of the table are such
  blocks: each came from \<^verbatim>\<open>calloc\<close> and has not been freed.
\<close>

definition calloc_ok :: "platform \<Rightarrow> bool" where
  "calloc_ok pf \<longleftrightarrow>
     (\<forall>s n. calloc pf s n \<noteq> 0 \<longrightarrow>
        block_ok (calloc pf s n, n) \<and> list_all (apart (calloc pf s n, n)) (allocations s))"

text \<open>
  The invariant of the collector. Before initialisation nothing has been allocated and
  \<open>current_allocated\<close> is 0, as the static is at the start of the process. After
  initialisation the table holds blocks that are apart, and \<open>current_allocated\<close> is
  the sum of their sizes.
\<close>

definition gc_inv :: "gc_state \<Rightarrow> bool" where
  "gc_inv s \<longleftrightarrow>
     (if gc_initialized s
      then heap_wf (allocations s) \<and>
           unat (current_allocated s) = sum_list (map (\<lambda>e. unat (snd e)) (allocations s))
      else current_allocated s = 0)"

text \<open>The entries of the table that the sweep frees.\<close>

definition unmarked :: "heapmap \<Rightarrow> heapmap \<Rightarrow> heapmap" where
  "unmarked A marked = filter (\<lambda>e. map_of marked (fst e) = None) A"

text \<open>The bytes of a block.\<close>

definition in_block :: "addr \<Rightarrow> addr \<times> addr \<Rightarrow> bool" where
  "in_block p e \<longleftrightarrow> p - fst e < snd e"

text \<open>Memory after the bytes of the blocks \<open>F\<close> have been overwritten with \<open>0xab\<close>.\<close>

definition wipe :: "heapmap \<Rightarrow> memory \<Rightarrow> memory" where
  "wipe F m = (\<lambda>p. if list_ex (in_block p) F then 0xab else m p)"

text \<open>
  A scan of the region at \<open>start\<close> reads the eight bytes at each of its addresses;
  it is clear of the register buffer at \<open>b\<close> when none of these bytes is a byte of
  the buffer. A collection is clear of its register buffer when the scans of the stack in
  use, of the data segment and of every block of the table are.
\<close>

definition scan_clear :: "addr \<Rightarrow> addr \<Rightarrow> addr \<Rightarrow> bool" where
  "scan_clear b start len \<longleftrightarrow>
     list_all (\<lambda>p. list_all (\<lambda>k. \<not> in_block (p + k) (b, 120)) [0, 1, 2, 3, 4, 5, 6, 7])
       (region_addrs start (start + len))"

definition buffer_clear :: "platform \<Rightarrow> cpu \<Rightarrow> gc_state \<Rightarrow> bool" where
  "buffer_clear pf c s0 \<longleftrightarrow>
     scan_clear (register_buffer pf s0) (get_stack_pointer c)
       (stack_start s0 + stack_length s0 - get_stack_pointer c) \<and>
     scan_clear (register_buffer pf s0) (data_segment_start s0) (data_segment_length s0) \<and>
     list_all (\<lambda>e. scan_clear (register_buffer pf s0) (fst e) (snd e)) (allocations s0)"


subsection \<open>Runs of a program\<close>

text \<open>
  A program that uses the collector calls \<^verbatim>\<open>gc_alloc\<close> and \<^verbatim>\<open>gc_collect\<close> and, in
  between, stores bytes into memory. A run stops at the first fault.
\<close>

datatype op = OpAlloc cpu addr | OpCollect cpu | OpStore addr byte

fun step :: "platform \<Rightarrow> gc_state \<Rightarrow> op \<Rightarrow> (fault + gc_state) option" where
  "step pf s (OpAlloc c n) = map_option (map_sum id snd) (gc_alloc pf c s n)"
| "step pf s (OpCollect c) = gc_collect pf c s"
| "step pf s (OpStore a b) = Some (Inr (s\<lparr>mem := (mem s)(a := b)\<rparr>))"

fun run :: "platform \<Rightarrow> gc_state \<Rightarrow> op list \<Rightarrow> (fault + gc_state) option" where
  "run pf s [] = Some (Inr s)"
| "run pf s (x # xs) =
     (case step pf s x of
        None \<Rightarrow> None
      | Some (Inl f) \<Rightarrow> Some (Inl f)
      | Some (Inr s') \<Rightarrow> run pf s' xs)"

text \<open>The value of a call that returned.\<close>

definition returned :: "(fault + 'a) option \<Rightarrow> 'a option" where
  "returned r = (case r of Some (Inr x) \<Rightarrow> Some x | Some (Inl f) \<Rightarrow> None | None \<Rightarrow> None)"

text \<open>
  A property of the outcome of a run: the run is over, and if it did not end with a fault,
  the state it ended in has the property.
\<close>

definition ended_or :: "('a \<Rightarrow> bool) \<Rightarrow> (fault + 'a) option \<Rightarrow> bool" where
  "ended_or P r = (case r of None \<Rightarrow> False | Some (Inl f) \<Rightarrow> True | Some (Inr x) \<Rightarrow> P x)"

text \<open>The calls of \<^verbatim>\<open>internal_alloc\<close> and \<^verbatim>\<open>gc_collect\<close> among the recorded calls.\<close>

fun is_control :: "event \<Rightarrow> bool" where
  "is_control (EvInternalAlloc n) = True"
| "is_control EvCollect = True"
| "is_control (EvCalloc n p) = False"
| "is_control (EvFree a) = False"

fun is_calloc :: "event \<Rightarrow> bool" where
  "is_calloc (EvCalloc n p) = True"
| "is_calloc (EvInternalAlloc n) = False"
| "is_calloc EvCollect = False"
| "is_calloc (EvFree a) = False"

subsection \<open>A small machine for concrete runs\<close>

text \<open>
  An allocator over the arena \<open>0x3000 .. 0x3100\<close> that places a block at the first
  16-byte boundary above every block of the table, and fails when the block does not fit
  below the end of the arena.
\<close>

definition arena_top :: "heapmap \<Rightarrow> nat" where
  "arena_top A = fold (\<lambda>e t. max t (((unat (fst e) + unat (snd e)) div 16 + 1) * 16)) A 12288"

definition arena_calloc :: "gc_state \<Rightarrow> addr \<Rightarrow> addr" where
  "arena_calloc s n =
     (if arena_top (allocations s) + unat n \<le> 12544 then of_nat (arena_top (allocations s)) else 0)"

definition demo_platform :: platform where
  "demo_platform =
     \<lparr>mach_vm_region = (\<lambda>a. (0, 0x1000, 0x20)),
      getsegbyname_DATA = Some (0x2000, 8),
      dyld_get_image_vmaddr_slide = 0,
      calloc = arena_calloc\<rparr>"

text \<open>
  A platform on which the lookup of the data segment fails, one on which the query for
  the stack region fails, and one on which \<^verbatim>\<open>calloc\<close> has no memory left for any
  request.
\<close>

definition nodata_platform :: platform where
  "nodata_platform = demo_platform\<lparr>getsegbyname_DATA := None\<rparr>"

definition nostack_platform :: platform where
  "nostack_platform = demo_platform\<lparr>mach_vm_region := (\<lambda>a. (1, 0, 0))\<rparr>"

definition exhausted_platform :: platform where
  "exhausted_platform = demo_platform\<lparr>calloc := (\<lambda>s n. 0)\<rparr>"

definition demo_cpu :: cpu where
  "demo_cpu =
     \<lparr>rax = 0, rbx = 0, rcx = 0, rdx = 0, rsi = 0, rdi = 0, r8 = 0, r9 = 0, r10 = 0,
      r11 = 0, r12 = 0, r13 = 0, r14 = 0, r15 = 0, rsp = 0x1010\<rparr>"

text \<open>
  A process before its first call of the collector, and one with three blocks of 8 bytes:
  the stack holds the address of the first, the first holds the address of the second, and
  nothing holds the address of the third.
\<close>

definition fresh_state :: gc_state where
  "fresh_state =
     \<lparr>gc_initialized = False, stack_start = 0, stack_length = 0, data_segment_start = 0,
      data_segment_length = 0, allocations = [], max_heap_size = 0, current_allocated = 0,
      verbose_logging = False, overwrite_reclaimed_blocks = False, mem = (\<lambda>p. 0),
      calls = []\<rparr>"

definition demo_state :: gc_state where
  "demo_state =
     \<lparr>gc_initialized = True, stack_start = 0x1000, stack_length = 0x20,
      data_segment_start = 0x2000, data_segment_length = 8,
      allocations = [(0x3000, 8), (0x3010, 8), (0x3020, 8)],
      max_heap_size = 24, current_allocated = 24,
      verbose_logging = False, overwrite_reclaimed_blocks = True,
      mem = store64 (store64 (\<lambda>p. 0) 0x1010 0x3000) 0x3000 0x3010,
      calls = []\<rparr>"

text \<open>
  The memory in which the mark phase of a collection from \<open>demo_state\<close> runs: the
  register buffer is the 120 bytes at \<open>0x3030\<close>.
\<close>

definition demo_marking_mem :: memory where
  "demo_marking_mem =
     store_words (memset (mem demo_state) 0x3030 0 120) 0x3030 (butlast (get_registers demo_cpu))"


definition capless_state :: gc_state where
  "capless_state = gc_debug_set_max_heap demo_state 0"


text \<open>\<open>demo_state\<close> after \<^verbatim>\<open>gc_debug_set_max_heap(8)\<close>: the total is above the cap.\<close>

definition lowered_state :: gc_state where
  "lowered_state = gc_debug_set_max_heap demo_state 8"

text \<open>
  A process that configures a cap of 24 bytes before its first allocation, and its state
  once \<^verbatim>\<open>gc_init\<close> has run.
\<close>

definition capped_fresh_state :: gc_state where
  "capped_fresh_state = gc_debug_set_max_heap fresh_state 24"

definition capped_started_state :: gc_state where
  "capped_started_state =
     capped_fresh_state\<lparr>gc_initialized := True, stack_start := 0x1000, stack_length := 0x20,
                          data_segment_start := 0x2000, data_segment_length := 8,
                          allocations := []\<rparr>"


section \<open>The scanner\<close>

subsection \<open>The loop over a region\<close>

text \<open>
  When the end of a region is more than 8 bytes below the top of the address space, no
  pointer wraps around, and the loop visits \<open>p\<close>, \<open>p + 8\<close>, \<open>p + 16\<close>, ...: one
  address for every 8 bytes between \<open>p\<close> and the end, the last word reaching past the
  end when the length is not a multiple of 8.
\<close>

lemma region_addrs_in_range:
  "unat e + 8 < 2 ^ 64 \<Longrightarrow>
   region_addrs p e = map (\<lambda>k. p + 8 * of_nat k) [0 ..< (unat e + 7 - unat p) div 8]"
proof (induction p e rule: region_addrs.induct)
  case (1 p e)
  show ?case
  proof (cases "p < e")
    case False
    then have "unat e \<le> unat p" by (simp add: word_less_nat_alt)
    then have "(unat e + 7 - unat p) div 8 = 0" by simp
    then show ?thesis using False by (simp add: region_addrs.simps [of p e])
  next
    case True
    then have lt: "unat p < unat e" by (simp add: word_less_nat_alt)
    have nw: "unat p + 8 < 2 ^ 64" using lt "1.prems" by simp
    then have u8: "unat (p + 8) = unat p + 8"
      using unat_add_lem [of p 8] by simp
    then have nwrap: "\<not> p + 8 \<le> p" by (simp add: word_le_nat_alt)
    from "1.IH" [OF True nwrap "1.prems"]
    have ih: "region_addrs (p + 8) e =
        map (\<lambda>k. p + 8 + 8 * of_nat k) [0 ..< (unat e + 7 - unat (p + 8)) div 8]" .
    have "unat e + 7 - unat p = (unat e + 7 - (unat p + 8)) + 8" using lt by simp
    then have cnt: "(unat e + 7 - unat p) div 8 = Suc ((unat e + 7 - unat (p + 8)) div 8)"
      unfolding u8 by simp
    have "region_addrs p e = p # region_addrs (p + 8) e"
      using True nwrap by (simp add: region_addrs.simps [of p e])
    also have "\<dots> = map (\<lambda>k. p + 8 * of_nat k) [0 ..< (unat e + 7 - unat p) div 8]"
      unfolding ih cnt by (simp add: upt_conv_Cons map_Suc_upt [symmetric] del: upt_Suc
          add: algebra_simps)
    finally show ?thesis .
  qed
qed

subsection \<open>Reachability and the result of a scan\<close>

lemma reachable_mono: "set rs \<subseteq> set rs' \<Longrightarrow> reachable A m rs \<subseteq> reachable A m rs'"
proof
  fix x assume sub: "set rs \<subseteq> set rs'" and "x \<in> reachable A m rs"
  from this(2) show "x \<in> reachable A m rs'"
  proof induction
    case (root w n)
    then show ?case using sub by (auto intro: reachable.root)
  next
    case (step a n w k)
    then show ?case by (auto intro: reachable.step)
  qed
qed

lemma reachable_block:
  assumes "a \<in> reachable A m rs" and "map_of A a = Some n"
  shows "reachable A m (region_words m a n) \<subseteq> reachable A m rs"
proof
  fix x assume "x \<in> reachable A m (region_words m a n)"
  then show "x \<in> reachable A m rs"
  proof induction
    case (root w k)
    then show ?case using assms by (auto intro: reachable.step)
  next
    case (step b k w j)
    then show ?case by (auto intro: reachable.step)
  qed
qed

lemma scan_words_Nil: "scan_words A m [] marked = Some marked"
  by (subst scan_words.simps) simp

lemma scan_words_skip:
  "map_of A w = None \<or> map_of marked w \<noteq> None \<Longrightarrow>
   scan_words A m (w # rest) marked = scan_words A m rest marked"
  by (subst scan_words.simps) (auto split: option.splits)

lemma scan_words_enter:
  "map_of A w = Some sz \<Longrightarrow> map_of marked w = None \<Longrightarrow>
   scan_words A m (w # rest) marked =
     Option.bind (scan_words A m (region_words m w sz) (marked @ [(w, sz)]))
       (\<lambda>marked'. scan_words A m rest marked')"
  by (subst scan_words.simps) (simp add: heapmap_insert_def)

lemma unmarked_less:
  assumes "map_of A w = Some sz" and "map_of marked w = None"
  shows "card (fst ` set A - fst ` set (marked @ [(w, sz)] @ new)) < card (fst ` set A - fst ` set marked)"
proof -
  have w: "w \<in> fst ` set A" using assms(1) by (metis map_of_eq_None_iff option.distinct(1))
  have nw: "w \<notin> fst ` set marked" using assms(2) by (simp add: map_of_eq_None_iff)
  have "fst ` set A - fst ` set (marked @ [(w, sz)] @ new) \<subset> fst ` set A - fst ` set marked"
    using w nw by auto
  then show ?thesis by (intro psubset_card_mono) auto
qed

lemma scan_words_spec:
  "\<exists>new. scan_words A m ws marked = Some (marked @ new) \<and> scan_post A m ws marked new"
proof (induction "card (fst ` set A - fst ` set marked)" arbitrary: ws marked rule: less_induct)
  case less
  show ?case
  proof (induction ws)
    case Nil
    show ?case by (rule exI [of _ "[]"]) (simp add: scan_words_Nil scan_post_def)
  next
    case (Cons w rest)
    then obtain new where run: "scan_words A m rest marked = Some (marked @ new)"
      and post: "scan_post A m rest marked new" by blast
    have mono: "reachable A m rest \<subseteq> reachable A m (w # rest)"
      by (rule reachable_mono) auto
    show ?case
    proof (cases "map_of A w")
      case None
      then have "scan_words A m (w # rest) marked = Some (marked @ new)"
        using run by (simp add: scan_words_skip)
      moreover have "scan_post A m (w # rest) marked new"
        using post None mono unfolding scan_post_def by auto
      ultimately show ?thesis by blast
    next
      case (Some sz)
      show ?thesis
      proof (cases "map_of marked w")
        case (Some v)
        then have "scan_words A m (w # rest) marked = Some (marked @ new)"
          using run by (simp add: scan_words_skip)
        moreover have "w \<in> fst ` set marked"
          using Some by (metis map_of_eq_None_iff option.distinct(1))
        then have "scan_post A m (w # rest) marked new"
          using post mono unfolding scan_post_def by auto
        ultimately show ?thesis by blast
      next
        case None
        note unm = None
        let ?m1 = "marked @ [(w, sz)]"
        from unmarked_less [OF Some unm, of "[]"]
        have "card (fst ` set A - fst ` set ?m1) < card (fst ` set A - fst ` set marked)" by simp
        from less.hyps [OF this, of "region_words m w sz"]
        obtain n1 where r1: "scan_words A m (region_words m w sz) ?m1 = Some (?m1 @ n1)"
          and p1: "scan_post A m (region_words m w sz) ?m1 n1" by blast
        let ?m2 = "?m1 @ n1"
        from unmarked_less [OF Some unm, of n1]
        have "card (fst ` set A - fst ` set ?m2) < card (fst ` set A - fst ` set marked)" by simp
        from less.hyps [OF this, of rest]
        obtain n2 where r2: "scan_words A m rest ?m2 = Some (?m2 @ n2)"
          and p2: "scan_post A m rest ?m2 n2" by blast
        let ?new = "(w, sz) # n1 @ n2"
        have run': "scan_words A m (w # rest) marked = Some (marked @ ?new)"
          using r1 r2 by (simp add: scan_words_enter [OF Some unm])
        have wr: "w \<in> reachable A m (w # rest)"
          using Some by (auto intro: reachable.root)
        have sub1: "reachable A m (region_words m w sz) \<subseteq> reachable A m (w # rest)"
          by (rule reachable_block [OF wr Some])
        have nw: "w \<notin> fst ` set marked" using unm by (simp add: map_of_eq_None_iff)
        have d: "distinct (map fst ?new)" "fst ` set ?new \<inter> fst ` set marked = {}"
          using p1 p2 nw unfolding scan_post_def by auto
        have e: "\<forall>e \<in> set ?new. map_of A (fst e) = Some (snd e) \<and> fst e \<in> reachable A m (w # rest)"
          using p1 p2 Some wr sub1 mono unfolding scan_post_def by auto
        have c1: "\<forall>v \<in> set (w # rest). map_of A v \<noteq> None \<longrightarrow> v \<in> fst ` set (marked @ ?new)"
          using p2 unfolding scan_post_def by auto
        have k1: "fst ` set ?m2 \<subseteq> fst ` set (marked @ ?new)" by auto
        have k2: "fst ` set (?m2 @ n2) = fst ` set (marked @ ?new)" by auto
        have a1: "\<forall>v \<in> set (region_words m w sz). map_of A v \<noteq> None \<longrightarrow> v \<in> fst ` set ?m2"
          using p1 unfolding scan_post_def by blast
        have a2: "\<forall>e \<in> set n1. \<forall>v \<in> set (region_words m (fst e) (snd e)).
            map_of A v \<noteq> None \<longrightarrow> v \<in> fst ` set ?m2"
          using p1 unfolding scan_post_def by blast
        have a3: "\<forall>e \<in> set n2. \<forall>v \<in> set (region_words m (fst e) (snd e)).
            map_of A v \<noteq> None \<longrightarrow> v \<in> fst ` set (?m2 @ n2)"
          using p2 unfolding scan_post_def by blast
        have c2: "\<forall>e \<in> set ?new. \<forall>v \<in> set (region_words m (fst e) (snd e)).
            map_of A v \<noteq> None \<longrightarrow> v \<in> fst ` set (marked @ ?new)"
        proof (intro ballI impI)
          fix e v
          assume e: "e \<in> set ?new" and v: "v \<in> set (region_words m (fst e) (snd e))"
            and t: "map_of A v \<noteq> None"
          from e consider "e = (w, sz)" | "e \<in> set n1" | "e \<in> set n2" by auto
          then show "v \<in> fst ` set (marked @ ?new)"
          proof cases
            case 1
            then show ?thesis using a1 v t k1 by auto
          next
            case 2
            then show ?thesis using a2 v t k1 by blast
          next
            case 3
            then show ?thesis using a3 v t unfolding k2 by blast
          qed
        qed
        have "scan_post A m (w # rest) marked ?new"
          unfolding scan_post_def using d e c1 c2 by blast
        with run' show ?thesis by blast
      qed
    qed
  qed
qed

subsection \<open>Termination of the traversal\<close>

lemma new_entries_bounded:
  assumes "distinct (map fst new)" and "\<forall>e \<in> set new. map_of A (fst e) = Some (snd e)"
  shows "length new \<le> length A"
proof -
  have "fst ` set new \<subseteq> fst ` set A"
  proof
    fix a assume "a \<in> fst ` set new"
    then obtain e where "e \<in> set new" and "a = fst e" by blast
    with assms(2) have "map_of A a = Some (snd e)" by simp
    then show "a \<in> fst ` set A" by (metis map_of_eq_None_iff option.distinct(1))
  qed
  then have "card (fst ` set new) \<le> card (fst ` set A)"
    by (intro card_mono) auto
  moreover have "card (fst ` set new) = length new"
    using assms(1) by (metis distinct_card length_map set_map)
  moreover have "card (fst ` set A) \<le> length A"
    by (metis card_length length_map set_map)
  ultimately show ?thesis by simp
qed

text \<open>
  Claim C8. The recursive traversal of \<^verbatim>\<open>gc_collect_scan_block\<close> returns for every
  table, every memory, every region and every mark set it is started with. It only adds
  entries to the mark set, the keys it adds are distinct and were not marked before (a
  block that is in the mark set is not entered again), and so it enters at most as many
  blocks as the table has entries.
\<close>

theorem gc_collect_scan_block_terminates:
  "\<exists>new. gc_collect_scan_block s start len marked = Some (marked @ new) \<and>
         distinct (map fst new) \<and> fst ` set new \<inter> fst ` set marked = {} \<and>
         length new \<le> length (allocations s)"
proof -
  obtain new where r: "scan_words (allocations s) (mem s) (region_words (mem s) start len) marked
        = Some (marked @ new)"
    and p: "scan_post (allocations s) (mem s) (region_words (mem s) start len) marked new"
    using scan_words_spec by blast
  have "length new \<le> length (allocations s)"
    using p by (intro new_entries_bounded) (auto simp: scan_post_def)
  then show ?thesis
    using r p unfolding gc_collect_scan_block_def scan_post_def by blast
qed

text \<open>Claim C8 at the stack region of \<open>demo_state\<close>.\<close>

theorem gc_collect_scan_block_terminates_witness:
  "\<exists>new. gc_collect_scan_block demo_state 0x1010 0x10 [] = Some ([] @ new) \<and>
         distinct (map fst new) \<and> fst ` set new \<inter> fst ` set ([] :: heapmap) = {} \<and>
         length new \<le> length (allocations demo_state)"
  using gc_collect_scan_block_terminates [of demo_state "0x1010" "0x10" "[]"] .

subsection \<open>The mark phase\<close>

lemma mark_phase_spec:
  "\<exists>n1 n2 n3. mark_phase c s = Some (n1 @ n2 @ n3) \<and>
     scan_post (allocations s) (mem s) (get_registers c) [] n1 \<and>
     scan_post (allocations s) (mem s)
       (region_words (mem s) (get_stack_pointer c)
          (stack_start s + stack_length s - get_stack_pointer c)) n1 n2 \<and>
     scan_post (allocations s) (mem s)
       (region_words (mem s) (data_segment_start s) (data_segment_length s)) (n1 @ n2) n3"
proof -
  let ?A = "allocations s" and ?m = "mem s"
  let ?sw = "region_words ?m (get_stack_pointer c)
          (stack_start s + stack_length s - get_stack_pointer c)"
  let ?dw = "region_words ?m (data_segment_start s) (data_segment_length s)"
  obtain n1 where r1: "scan_words ?A ?m (get_registers c) [] = Some ([] @ n1)"
    and p1: "scan_post ?A ?m (get_registers c) [] n1"
    using scan_words_spec by blast
  obtain n2 where r2: "scan_words ?A ?m ?sw n1 = Some (n1 @ n2)"
    and p2: "scan_post ?A ?m ?sw n1 n2"
    using scan_words_spec by blast
  obtain n3 where r3: "scan_words ?A ?m ?dw (n1 @ n2) = Some ((n1 @ n2) @ n3)"
    and p3: "scan_post ?A ?m ?dw (n1 @ n2) n3"
    using scan_words_spec by blast
  have "mark_phase c s = Some (n1 @ n2 @ n3)"
    using r1 r2 r3 by (simp add: mark_phase_def gc_collect_scan_block_def)
  with p1 p2 p3 show ?thesis by blast
qed

lemma mark_phase_result:
  "\<exists>marked. mark_phase c s = Some marked \<and>
     fst ` set marked = reachable (allocations s) (mem s) (root_words c s) \<and>
     distinct (map fst marked) \<and>
     (\<forall>e \<in> set marked. map_of (allocations s) (fst e) = Some (snd e))"
proof -
  let ?A = "allocations s" and ?m = "mem s"
  let ?rw = "get_registers c"
  let ?sw = "region_words ?m (get_stack_pointer c)
          (stack_start s + stack_length s - get_stack_pointer c)"
  let ?dw = "region_words ?m (data_segment_start s) (data_segment_length s)"
  obtain n1 n2 n3 where r: "mark_phase c s = Some (n1 @ n2 @ n3)"
    and p1: "scan_post ?A ?m ?rw [] n1"
    and p2: "scan_post ?A ?m ?sw n1 n2"
    and p3: "scan_post ?A ?m ?dw (n1 @ n2) n3"
    using mark_phase_spec by blast
  let ?K = "fst ` set (n1 @ n2 @ n3)"
  have roots: "root_words c s = ?rw @ ?sw @ ?dw" by (simp add: root_words_def)
  have m1: "reachable ?A ?m ?rw \<subseteq> reachable ?A ?m (root_words c s)"
    unfolding roots by (rule reachable_mono) auto
  have m2: "reachable ?A ?m ?sw \<subseteq> reachable ?A ?m (root_words c s)"
    unfolding roots by (rule reachable_mono) auto
  have m3: "reachable ?A ?m ?dw \<subseteq> reachable ?A ?m (root_words c s)"
    unfolding roots by (rule reachable_mono) auto
  have ent: "\<forall>e \<in> set (n1 @ n2 @ n3). map_of ?A (fst e) = Some (snd e)"
    using p1 p2 p3 unfolding scan_post_def by auto
  have s1: "\<forall>e \<in> set n1. fst e \<in> reachable ?A ?m ?rw"
    using p1 by (simp add: scan_post_def)
  have s2: "\<forall>e \<in> set n2. fst e \<in> reachable ?A ?m ?sw"
    using p2 by (simp add: scan_post_def)
  have s3: "\<forall>e \<in> set n3. fst e \<in> reachable ?A ?m ?dw"
    using p3 by (simp add: scan_post_def)
  have sound: "?K \<subseteq> reachable ?A ?m (root_words c s)"
  proof
    fix a assume "a \<in> ?K"
    then obtain e where e: "e \<in> set n1 \<or> e \<in> set n2 \<or> e \<in> set n3" and a: "a = fst e"
      by auto
    from e consider "e \<in> set n1" | "e \<in> set n2" | "e \<in> set n3" by blast
    then show "a \<in> reachable ?A ?m (root_words c s)"
    proof cases
      case 1
      with s1 m1 a show ?thesis by blast
    next
      case 2
      with s2 m2 a show ?thesis by blast
    next
      case 3
      with s3 m3 a show ?thesis by blast
    qed
  qed
  have c1: "\<forall>w \<in> set (root_words c s). map_of ?A w \<noteq> None \<longrightarrow> w \<in> ?K"
  proof (intro ballI impI)
    fix w assume w: "w \<in> set (root_words c s)" and t: "map_of ?A w \<noteq> None"
    from w consider "w \<in> set ?rw" | "w \<in> set ?sw" | "w \<in> set ?dw"
      unfolding roots by auto
    then show "w \<in> ?K"
    proof cases
      case 1
      then have "w \<in> fst ` set ([] @ n1)" using p1 t unfolding scan_post_def by blast
      then show ?thesis by auto
    next
      case 2
      then have "w \<in> fst ` set (n1 @ n2)" using p2 t unfolding scan_post_def by blast
      then show ?thesis by auto
    next
      case 3
      then have "w \<in> fst ` set ((n1 @ n2) @ n3)" using p3 t unfolding scan_post_def by blast
      then show ?thesis by auto
    qed
  qed
  have c2: "\<forall>e \<in> set (n1 @ n2 @ n3). \<forall>w \<in> set (region_words ?m (fst e) (snd e)).
      map_of ?A w \<noteq> None \<longrightarrow> w \<in> ?K"
  proof (intro ballI impI)
    fix e w assume e: "e \<in> set (n1 @ n2 @ n3)"
      and w: "w \<in> set (region_words ?m (fst e) (snd e))" and t: "map_of ?A w \<noteq> None"
    from e consider "e \<in> set n1" | "e \<in> set n2" | "e \<in> set n3" by auto
    then show "w \<in> ?K"
    proof cases
      case 1
      then have "w \<in> fst ` set ([] @ n1)" using p1 w t unfolding scan_post_def by blast
      then show ?thesis by auto
    next
      case 2
      then have "w \<in> fst ` set (n1 @ n2)" using p2 w t unfolding scan_post_def by blast
      then show ?thesis by auto
    next
      case 3
      then have "w \<in> fst ` set ((n1 @ n2) @ n3)" using p3 w t unfolding scan_post_def by blast
      then show ?thesis by auto
    qed
  qed
  have complete: "reachable ?A ?m (root_words c s) \<subseteq> ?K"
  proof
    fix x assume "x \<in> reachable ?A ?m (root_words c s)"
    then show "x \<in> ?K"
    proof induction
      case (root w n)
      then show ?case using c1 by simp
    next
      case (step a n w k)
      from step.IH obtain e where e: "e \<in> set (n1 @ n2 @ n3)" and a: "a = fst e" by blast
      with ent step.hyps(2) have "snd e = n" by auto
      with c2 e a step.hyps(3,4) show ?case by auto
    qed
  qed
  have dist: "distinct (map fst (n1 @ n2 @ n3))"
    using p1 p2 p3 unfolding scan_post_def by (auto simp: image_Un)
  from r sound complete dist ent show ?thesis by blast
qed

text \<open>
  Claim C1. The mark phase of \<^verbatim>\<open>gc_collect\<close> scans the register snapshot, the stack
  from the stack pointer to the end of the stack region, and the data segment. It
  returns, and the keys of the mark set it returns are exactly the blocks reachable from
  the words of these three regions, where a word is followed when it is a key of the
  table and the words of a marked block are followed in the same way. The entries of the
  mark set are entries of the table, one per key.
\<close>

theorem mark_phase_marks_reachable:
  "\<exists>marked. mark_phase c s = Some marked \<and>
     fst ` set marked = reachable (allocations s) (mem s) (root_words c s) \<and>
     distinct (map fst marked) \<and>
     (\<forall>e \<in> set marked. map_of (allocations s) (fst e) = Some (snd e))"
  by (rule mark_phase_result)

lemma demo_mark: "mark_phase demo_cpu demo_state = Some [(0x3000, 8), (0x3010, 8)]"
  by code_simp

text \<open>Claim C1 at \<open>demo_state\<close>: the blocks at \<open>0x3000\<close> and \<open>0x3010\<close> are the reachable ones.\<close>

theorem mark_phase_marks_reachable_witness:
  "reachable (allocations demo_state) (mem demo_state) (root_words demo_cpu demo_state)
     = {0x3000, 0x3010}"
  using mark_phase_marks_reachable [of demo_cpu demo_state] by (auto simp: demo_mark)

section \<open>The sweep\<close>

lemma wipe_Nil: "wipe [] m = m"
  by (simp add: wipe_def)

lemma wipe_memset: "wipe F (memset m (fst e) 0xab (snd e)) = wipe (e # F) m"
  by (rule ext) (simp add: wipe_def memset_def in_block_def)

lemma sweep_loop_eq:
  "sweep_loop A marked s t =
     (s\<lparr>mem := (if overwrite_reclaimed_blocks s then wipe (unmarked A marked) (mem s) else mem s),
        calls := calls s @ map (\<lambda>e. EvFree (fst e)) (unmarked A marked)\<rparr>,
      t + sum_list (map snd (unmarked A marked)))"
proof (induction A arbitrary: s t)
  case Nil
  show ?case by (simp add: unmarked_def wipe_Nil)
next
  case (Cons e A)
  show ?case
  proof (cases "map_of marked (fst e) = None")
    case True
    let ?s1 = "s\<lparr>mem := (if overwrite_reclaimed_blocks s
                         then memset (mem s) (fst e) 0xab (snd e) else mem s),
                calls := calls s @ [EvFree (fst e)]\<rparr>"
    have u: "unmarked (e # A) marked = e # unmarked A marked"
      using True by (simp add: unmarked_def)
    have "sweep_loop (e # A) marked s t = sweep_loop A marked ?s1 (t + snd e)"
      using True by simp
    also have "\<dots> =
      (?s1\<lparr>mem := (if overwrite_reclaimed_blocks ?s1
                 then wipe (unmarked A marked) (mem ?s1) else mem ?s1),
        calls := calls ?s1 @ map (\<lambda>e. EvFree (fst e)) (unmarked A marked)\<rparr>,
      (t + snd e) + sum_list (map snd (unmarked A marked)))"
      by (rule Cons.IH)
    also have "\<dots> =
      (s\<lparr>mem := (if overwrite_reclaimed_blocks s
                 then wipe (unmarked (e # A) marked) (mem s) else mem s),
        calls := calls s @ map (\<lambda>e. EvFree (fst e)) (unmarked (e # A) marked)\<rparr>,
      t + sum_list (map snd (unmarked (e # A) marked)))"
      unfolding u by (cases "overwrite_reclaimed_blocks s") (simp_all add: wipe_memset add.assoc)
    finally show ?thesis .
  next
    case False
    then obtain v where v: "map_of marked (fst e) = Some v" by auto
    have u: "unmarked (e # A) marked = unmarked A marked"
      by (simp add: unmarked_def v)
    have "sweep_loop (e # A) marked s t = sweep_loop A marked s t"
      by (simp add: v)
    then show ?thesis
      unfolding u by (simp only: Cons.IH)
  qed
qed

lemma sweep_eq:
  "sweep s marked =
     s\<lparr>mem := (if overwrite_reclaimed_blocks s
               then wipe (unmarked (allocations s) marked) (mem s) else mem s),
       calls := calls s @ map (\<lambda>e. EvFree (fst e)) (unmarked (allocations s) marked),
       current_allocated :=
         current_allocated s - sum_list (map snd (unmarked (allocations s) marked)),
       allocations := marked\<rparr>"
  by (simp add: sweep_def sweep_loop_eq)

lemma mark_phase_calls [simp]: "mark_phase c (s\<lparr>calls := x\<rparr>) = mark_phase c s"
  by (simp add: mark_phase_def gc_collect_scan_block_def)

lemma root_words_calls [simp]: "root_words c (s\<lparr>calls := x\<rparr>) = root_words c s"
  by (simp add: root_words_def)

lemma snapshot_registers_eq:
  "snapshot_registers pf c s =
     (if calloc pf s 120 = 0 then Inl NullDereference
      else Inr (calloc pf s 120,
                s\<lparr>mem := store_words (memset (mem s) (calloc pf s 120) 0 120) (calloc pf s 120)
                            (butlast (get_registers c)),
                  calls := calls s @ [EvCalloc 120 (calloc pf s 120)]\<rparr>))"
  by (simp add: snapshot_registers_def calloc1_def Let_def)

lemma marking_state_eq:
  assumes "register_buffer pf s0 \<noteq> 0"
  shows "marking_state pf c s0 =
     s0\<lparr>mem := store_words (memset (mem s0) (register_buffer pf s0) 0 120)
                  (register_buffer pf s0) (butlast (get_registers c)),
        calls := calls s0 @ [EvCollect, EvCalloc 120 (register_buffer pf s0)]\<rparr>"
  using assms by (simp add: marking_state_def snapshot_registers_eq register_buffer_def)

text \<open>
  The three ways a collection can go: initialisation ends the process; \<^verbatim>\<open>calloc\<close>
  has no memory for the register buffer and the store of \<^verbatim>\<open>get_registers\<close> through
  the null pointer ends the process; or the collection marks and sweeps.
\<close>

lemma gc_collect_init_fault:
  "gc_init pf c s = Inl f \<Longrightarrow> gc_collect pf c s = Some (Inl f)"
  by (simp add: gc_collect_def)

lemma gc_collect_no_buffer:
  assumes "gc_init pf c s = Inr s0" and "register_buffer pf s0 = 0"
  shows "gc_collect pf c s = Some (Inl NullDereference)"
  using assms by (simp add: gc_collect_def snapshot_registers_eq register_buffer_def)

lemma gc_collect_eq:
  assumes "gc_init pf c s = Inr s0" and "register_buffer pf s0 \<noteq> 0"
    and "mark_phase c (marking_state pf c s0) = Some marked"
  shows "gc_collect pf c s =
     Some (Inr (sweep (marking_state pf c s0
                  \<lparr>calls := calls s0 @ [EvCollect, EvCalloc 120 (register_buffer pf s0),
                                          EvFree (register_buffer pf s0)]\<rparr>) marked))"
proof -
  let ?s1 = "s0\<lparr>calls := calls s0 @ [EvCollect]\<rparr>"
  let ?b = "register_buffer pf s0"
  let ?ms = "marking_state pf c s0"
  have sn: "snapshot_registers pf c ?s1 = Inr (?b, ?ms)"
    using assms(2) by (simp add: marking_state_def snapshot_registers_eq register_buffer_def)
  have ca: "calls ?ms @ [EvFree ?b] = calls s0 @ [EvCollect, EvCalloc 120 ?b, EvFree ?b]"
    by (simp add: marking_state_eq [OF assms(2)])
  show ?thesis
    using assms(1,3) by (simp add: gc_collect_def Let_def sn ca)
qed

lemma gc_init_initialized: "gc_initialized s \<Longrightarrow> gc_init pf c s = Inr s"
  by (simp add: gc_init_def)

lemma gc_collect_result:
  assumes "gc_init pf c s = Inr s0" and "register_buffer pf s0 \<noteq> 0"
  shows "\<exists>marked. mark_phase c (marking_state pf c s0) = Some marked \<and>
    fst ` set marked =
      reachable (allocations s0) (mem (marking_state pf c s0))
        (root_words c (marking_state pf c s0)) \<and>
    distinct (map fst marked) \<and>
    (\<forall>e \<in> set marked. map_of (allocations s0) (fst e) = Some (snd e)) \<and>
    gc_collect pf c s =
      Some (Inr (sweep (marking_state pf c s0
                   \<lparr>calls := calls s0 @ [EvCollect, EvCalloc 120 (register_buffer pf s0),
                                           EvFree (register_buffer pf s0)]\<rparr>) marked))"
proof -
  let ?ms = "marking_state pf c s0"
  have a: "allocations ?ms = allocations s0"
    by (simp add: marking_state_eq [OF assms(2)])
  obtain marked where m: "mark_phase c ?ms = Some marked"
    and k: "fst ` set marked = reachable (allocations ?ms) (mem ?ms) (root_words c ?ms)"
    and d: "distinct (map fst marked)"
    and e: "\<forall>e \<in> set marked. map_of (allocations ?ms) (fst e) = Some (snd e)"
    using mark_phase_result by blast
  from m k d e gc_collect_eq [OF assms m] show ?thesis unfolding a by blast
qed

lemma wipe_block:
  "e \<in> set F \<Longrightarrow> i < snd e \<Longrightarrow> wipe F m (fst e + i) = 0xab"
  by (auto simp: wipe_def in_block_def list_ex_iff)

lemma gc_collect_sweep:
  assumes "gc_init pf c s = Inr s0" and "register_buffer pf s0 \<noteq> 0"
  shows "\<exists>marked s'. mark_phase c (marking_state pf c s0) = Some marked \<and>
     gc_collect pf c s = Some (Inr s') \<and>
     allocations s' = marked \<and>
     current_allocated s' =
       current_allocated s0 - sum_list (map snd (unmarked (allocations s0) marked)) \<and>
     calls s' =
       calls s0 @
       [EvCollect, EvCalloc 120 (register_buffer pf s0), EvFree (register_buffer pf s0)] @
       map (\<lambda>e. EvFree (fst e)) (unmarked (allocations s0) marked) \<and>
     mem s' = (if overwrite_reclaimed_blocks s0
               then wipe (unmarked (allocations s0) marked) (mem (marking_state pf c s0))
               else mem (marking_state pf c s0)) \<and>
     max_heap_size s' = max_heap_size s0 \<and> gc_initialized s'"
proof -
  let ?ms = "marking_state pf c s0"
  let ?b = "register_buffer pf s0"
  obtain marked where m: "mark_phase c ?ms = Some marked"
    using mark_phase_result by blast
  let ?s' = "sweep (?ms\<lparr>calls := calls s0 @ [EvCollect, EvCalloc 120 ?b, EvFree ?b]\<rparr>) marked"
  have i: "gc_initialized s0"
    using assms(1) by (auto simp: gc_init_def Let_def split: if_splits prod.splits option.splits)
  have g: "gc_collect pf c s = Some (Inr ?s')"
    by (rule gc_collect_eq [OF assms m])
  have a: "allocations ?s' = marked" by (simp add: sweep_eq)
  have b: "current_allocated ?s' =
       current_allocated s0 - sum_list (map snd (unmarked (allocations s0) marked))"
    by (simp add: sweep_eq marking_state_eq [OF assms(2)])
  have c: "calls ?s' = calls s0 @ [EvCollect, EvCalloc 120 ?b, EvFree ?b] @
       map (\<lambda>e. EvFree (fst e)) (unmarked (allocations s0) marked)"
    by (simp add: sweep_eq marking_state_eq [OF assms(2)])
  have d: "mem ?s' = (if overwrite_reclaimed_blocks s0
               then wipe (unmarked (allocations s0) marked) (mem ?ms) else mem ?ms)"
    by (simp add: sweep_eq marking_state_eq [OF assms(2)])
  have e: "max_heap_size ?s' = max_heap_size s0"
    by (simp add: sweep_eq marking_state_eq [OF assms(2)])
  have f: "gc_initialized ?s'"
    using i by (simp add: sweep_eq marking_state_eq [OF assms(2)])
  show ?thesis
    apply (rule exI [of _ marked])
    apply (rule exI [of _ ?s'])
    using m g a b c d e f apply (intro conjI)
           apply assumption+
    done
qed

text \<open>
  Claim C2. A collection reaches its sweep phase when initialisation succeeds and
  \<^verbatim>\<open>calloc\<close> returns a register buffer; the mark phase always returns. The collection
  then returns, and its sweep frees, in the order of the table, every entry of the table
  whose key is not in the mark set, overwrites the bytes of each such block with
  \<open>0xab\<close> when \<open>overwrite_reclaimed_blocks\<close> is set (and leaves the memory of the
  mark phase alone when it is not), subtracts the sizes of these blocks from
  \<open>current_allocated\<close>, and makes the mark set the new table. The calls of the whole
  collection are the allocation and the release of the register buffer, and then the
  releases of the sweep.
\<close>

theorem gc_collect_sweeps_unmarked:
  assumes "gc_init pf c s = Inr s0" and "register_buffer pf s0 \<noteq> 0"
  shows "\<exists>marked s'. mark_phase c (marking_state pf c s0) = Some marked \<and>
     gc_collect pf c s = Some (Inr s') \<and>
     allocations s' = marked \<and>
     current_allocated s' =
       current_allocated s0 - sum_list (map snd (unmarked (allocations s0) marked)) \<and>
     calls s' =
       calls s0 @
       [EvCollect, EvCalloc 120 (register_buffer pf s0), EvFree (register_buffer pf s0)] @
       map (\<lambda>e. EvFree (fst e)) (unmarked (allocations s0) marked) \<and>
     mem s' = (if overwrite_reclaimed_blocks s0
               then wipe (unmarked (allocations s0) marked) (mem (marking_state pf c s0))
               else mem (marking_state pf c s0)) \<and>
     (\<forall>e \<in> set (unmarked (allocations s0) marked). \<forall>i. i < snd e \<longrightarrow>
        mem s' (fst e + i) =
          (if overwrite_reclaimed_blocks s0 then 0xab
           else mem (marking_state pf c s0) (fst e + i)))"
proof -
  let ?ms = "marking_state pf c s0"
  obtain marked s' where m: "mark_phase c ?ms = Some marked"
    and g: "gc_collect pf c s = Some (Inr s')"
    and a: "allocations s' = marked"
    and b: "current_allocated s' =
       current_allocated s0 - sum_list (map snd (unmarked (allocations s0) marked))"
    and c: "calls s' = calls s0 @
       [EvCollect, EvCalloc 120 (register_buffer pf s0), EvFree (register_buffer pf s0)] @
       map (\<lambda>e. EvFree (fst e)) (unmarked (allocations s0) marked)"
    and d: "mem s' = (if overwrite_reclaimed_blocks s0
               then wipe (unmarked (allocations s0) marked) (mem ?ms) else mem ?ms)"
    using gc_collect_sweep [OF assms] by blast
  have e: "\<forall>e \<in> set (unmarked (allocations s0) marked). \<forall>i. i < snd e \<longrightarrow>
        mem s' (fst e + i) = (if overwrite_reclaimed_blocks s0 then 0xab else mem ?ms (fst e + i))"
  proof (intro ballI allI impI)
    fix e i
    assume "e \<in> set (unmarked (allocations s0) marked)" and "i < snd e"
    then have "wipe (unmarked (allocations s0) marked) (mem ?ms) (fst e + i) = 0xab"
      by (rule wipe_block)
    then show "mem s' (fst e + i) =
        (if overwrite_reclaimed_blocks s0 then 0xab else mem ?ms (fst e + i))"
      unfolding d by simp
  qed
  show ?thesis
    apply (rule exI [of _ marked])
    apply (rule exI [of _ s'])
    using m g a b c d e apply (intro conjI)
          apply assumption+
    done
qed

lemma apart_sym: "apart e e' \<Longrightarrow> apart e' e"
  by (auto simp: apart_def)

lemma heap_wf_iff:
  "heap_wf A \<longleftrightarrow>
     (\<forall>e \<in> set A. block_ok e) \<and> distinct (map fst A) \<and>
     (\<forall>e \<in> set A. \<forall>e' \<in> set A. fst e \<noteq> fst e' \<longrightarrow> apart e e')"
proof (induction A)
  case Nil
  show ?case by simp
next
  case (Cons x A)
  have k: "list_all (apart x) A \<Longrightarrow> fst x \<notin> fst ` set A"
    by (auto simp: list_all_iff apart_def)
  show ?case
  proof
    assume h: "heap_wf (x # A)"
    then have a: "list_all (apart x) A" and w: "heap_wf A" and b: "block_ok x" by simp_all
    from w Cons.IH have ih: "(\<forall>e \<in> set A. block_ok e)" "distinct (map fst A)"
      "(\<forall>e \<in> set A. \<forall>e' \<in> set A. fst e \<noteq> fst e' \<longrightarrow> apart e e')" by simp_all
    have p: "\<forall>e \<in> set (x # A). \<forall>e' \<in> set (x # A). fst e \<noteq> fst e' \<longrightarrow> apart e e'"
      using a ih(3) by (auto simp: list_all_iff intro: apart_sym)
    show "(\<forall>e \<in> set (x # A). block_ok e) \<and> distinct (map fst (x # A)) \<and>
      (\<forall>e \<in> set (x # A). \<forall>e' \<in> set (x # A). fst e \<noteq> fst e' \<longrightarrow> apart e e')"
      using b ih(1,2) k [OF a] p by simp
  next
    assume r: "(\<forall>e \<in> set (x # A). block_ok e) \<and> distinct (map fst (x # A)) \<and>
      (\<forall>e \<in> set (x # A). \<forall>e' \<in> set (x # A). fst e \<noteq> fst e' \<longrightarrow> apart e e')"
    then have "heap_wf A" using Cons.IH by simp
    moreover have "list_all (apart x) A"
      using r by (auto simp: list_all_iff)
    ultimately show "heap_wf (x # A)" using r by simp
  qed
qed

lemma in_block_nat:
  assumes "unat a + unat n \<le> 2 ^ 64"
  shows "in_block p (a, n) \<longleftrightarrow> unat a \<le> unat p \<and> unat p < unat a + unat n"
proof (cases "a \<le> p")
  case True
  then have le: "unat a \<le> unat p" by (simp add: word_le_nat_alt)
  from True have "unat (p - a) = unat p - unat a" by (simp add: unat_sub)
  then have "unat (p - a) < unat n \<longleftrightarrow> unat p < unat a + unat n"
    using le by linarith
  then show ?thesis
    using le by (simp add: in_block_def word_less_nat_alt)
next
  case False
  then have lt: "unat p < unat a" by (simp add: word_le_nat_alt)
  define N :: nat where "N = 2 ^ 64"
  have "unat (p - a) = (if unat a \<le> unat p then unat p - unat a else unat p + N - unat a)"
    unfolding N_def using unat_sub_if' [of p a] by simp
  then have "unat (p - a) = unat p + N - unat a" using lt by simp
  moreover have "unat a + unat n \<le> N" using assms by (simp add: N_def)
  ultimately have "\<not> unat (p - a) < unat n" by linarith
  then show ?thesis
    using lt by (simp add: in_block_def word_less_nat_alt)
qed

lemma apart_in_block:
  assumes "block_ok e" and "block_ok e'" and "apart e e'" and "in_block p e"
  shows "\<not> in_block p e'"
proof -
  obtain a n where e: "e = (a, n)" by (cases e)
  obtain a' n' where e': "e' = (a', n')" by (cases e')
  from assms show ?thesis
    unfolding e e' by (auto simp: block_ok_def apart_def in_block_nat)
qed

lemma map_of_marked:
  assumes "distinct (map fst marked)"
    and "\<forall>e \<in> set marked. map_of A (fst e) = Some (snd e)"
    and "a \<in> fst ` set marked"
  shows "map_of marked a = map_of A a"
proof -
  from assms(3) obtain e where e: "e \<in> set marked" and a: "a = fst e" by blast
  then have "(a, snd e) \<in> set marked" by simp
  with assms(1) have "map_of marked a = Some (snd e)" by (rule map_of_is_SomeI)
  with assms(2) e a show ?thesis by simp
qed

lemma unmarked_set:
  "set (unmarked A marked) = {e \<in> set A. fst e \<notin> fst ` set marked}"
  unfolding unmarked_def set_filter map_of_eq_None_iff ..

subsection \<open>The register buffer\<close>

text \<open>
  A word stored by \<open>store64\<close> is the word that \<open>load64\<close> reads, and the words
  of a region that ends below \<open>2^64\<close> are at the addresses \<open>p\<close>, \<open>p + 8\<close>, ...
\<close>

lemma store64_frame: "store64 m p v q \<noteq> m q \<Longrightarrow> unat (q - p) < 8"
  by (auto simp: store64_def word_less_nat_alt split: if_splits)

lemma unat_plus_le: "unat (x + y :: addr) \<le> unat x + unat y"
  unfolding unat_word_ariths by (rule mod_less_eq_dividend)

lemma store_words_frame:
  "store_words m p ws q \<noteq> m q \<Longrightarrow> unat (q - p) < 8 * length ws"
proof (induction ws arbitrary: m p)
  case Nil
  then show ?case by simp
next
  case (Cons w ws)
  show ?case
  proof (cases "store_words (store64 m p w) (p + 8) ws q = store64 m p w q")
    case True
    with Cons.prems have "store64 m p w q \<noteq> m q" by simp
    then have "unat (q - p) < 8" by (rule store64_frame)
    then show ?thesis by simp
  next
    case False
    then have ih: "unat (q - (p + 8)) < 8 * length ws" by (rule Cons.IH)
    have "unat (q - p) \<le> unat (q - (p + 8)) + unat (8 :: addr)"
      using unat_plus_le [of "q - (p + 8)" 8] by simp
    then have "unat (q - p) \<le> unat (q - (p + 8)) + 8" by simp
    then show ?thesis using ih by simp
  qed
qed

lemma byte_of_word: "(ucast (ucast x :: byte) :: addr) = take_bit 8 x"
  by (rule bit_word_eqI) (auto simp: bit_simps)

lemma byte_step: "take_bit 8 (drop_bit k v) + 256 * drop_bit (k + 8) v = drop_bit k (v :: addr)"
proof -
  have "push_bit 8 (drop_bit 8 (drop_bit k v)) + take_bit 8 (drop_bit k v) = drop_bit k v"
    by (rule bits_ident)
  then show ?thesis by (simp add: push_bit_eq_mult drop_bit_drop_bit ac_simps)
qed

lemma bytes_word:
  "take_bit 8 (drop_bit 0 v) + 256 * (take_bit 8 (drop_bit 8 v) + 256 * (take_bit 8 (drop_bit 16 v) +
   256 * (take_bit 8 (drop_bit 24 v) + 256 * (take_bit 8 (drop_bit 32 v) +
   256 * (take_bit 8 (drop_bit 40 v) + 256 * (take_bit 8 (drop_bit 48 v) +
   256 * (take_bit 8 (drop_bit 56 v) + 256 * 0))))))) = (v :: addr)"
proof -
  have z: "drop_bit 64 v = 0" by (rule bit_word_eqI) (simp add: bit_simps)
  have s7: "take_bit 8 (drop_bit 56 v) + 256 * 0 = drop_bit 56 v"
    using byte_step [of 56 v] by (simp add: z)
  have s6: "take_bit 8 (drop_bit 48 v) + 256 * drop_bit 56 v = drop_bit 48 v"
    using byte_step [of 48 v] by simp
  have s5: "take_bit 8 (drop_bit 40 v) + 256 * drop_bit 48 v = drop_bit 40 v"
    using byte_step [of 40 v] by simp
  have s4: "take_bit 8 (drop_bit 32 v) + 256 * drop_bit 40 v = drop_bit 32 v"
    using byte_step [of 32 v] by simp
  have s3: "take_bit 8 (drop_bit 24 v) + 256 * drop_bit 32 v = drop_bit 24 v"
    using byte_step [of 24 v] by simp
  have s2: "take_bit 8 (drop_bit 16 v) + 256 * drop_bit 24 v = drop_bit 16 v"
    using byte_step [of 16 v] by simp
  have s1: "take_bit 8 (drop_bit 8 v) + 256 * drop_bit 16 v = drop_bit 8 v"
    using byte_step [of 8 v] by simp
  have s0: "take_bit 8 (drop_bit 0 v) + 256 * drop_bit 8 v = drop_bit 0 v"
    using byte_step [of 0 v] by simp
  show ?thesis
    unfolding s7 s6 s5 s4 s3 s2 s1 s0 by simp
qed

lemma load64_store64: "load64 (store64 m p v) p = v"
proof -
  have "load64 (store64 m p v) p =
   take_bit 8 (drop_bit 0 v) + 256 * (take_bit 8 (drop_bit 8 v) + 256 * (take_bit 8 (drop_bit 16 v) +
   256 * (take_bit 8 (drop_bit 24 v) + 256 * (take_bit 8 (drop_bit 32 v) +
   256 * (take_bit 8 (drop_bit 40 v) + 256 * (take_bit 8 (drop_bit 48 v) +
   256 * (take_bit 8 (drop_bit 56 v) + 256 * 0)))))))"
    by (simp add: load64_def store64_def byte_of_word)
  then show ?thesis by (simp only: bytes_word)
qed

lemma load64_cong:
  assumes h: "\<And>i. i < 8 \<Longrightarrow> m (p + i) = m' (p + i)"
  shows "load64 m p = load64 m' p"
proof -
  have "m p = m' p" using h [of 0] by simp
  moreover have "m (p + 1) = m' (p + 1)" using h [of 1] by simp
  moreover have "m (p + 2) = m' (p + 2)" using h [of 2] by simp
  moreover have "m (p + 3) = m' (p + 3)" using h [of 3] by simp
  moreover have "m (p + 4) = m' (p + 4)" using h [of 4] by simp
  moreover have "m (p + 5) = m' (p + 5)" using h [of 5] by simp
  moreover have "m (p + 6) = m' (p + 6)" using h [of 6] by simp
  moreover have "m (p + 7) = m' (p + 7)" using h [of 7] by simp
  ultimately show ?thesis by (simp add: load64_def)
qed

text \<open>Stores at higher addresses leave a word alone.\<close>

lemma store_words_below:
  assumes "i < (8 :: addr)" and "8 * length ws + 8 \<le> 2 ^ 64"
  shows "store_words m (p + 8) ws (p + i) = m (p + i)"
proof (rule ccontr)
  assume "store_words m (p + 8) ws (p + i) \<noteq> m (p + i)"
  then have "unat ((p + i) - (p + 8)) < 8 * length ws" by (rule store_words_frame)
  moreover have "(p + i) - (p + 8) = i - 8" by simp
  moreover have "unat (i - 8) = unat i + 2 ^ 64 - 8"
    using assms(1) unat_sub_if' [of i 8] by (simp add: word_less_nat_alt)
  ultimately show False using assms(2) by simp
qed

lemma load64_store_words:
  "i < length ws \<Longrightarrow> 8 * length ws + 8 \<le> 2 ^ 64 \<Longrightarrow>
   load64 (store_words m p ws) (p + 8 * of_nat i) = ws ! i"
proof (induction ws arbitrary: m p i)
  case Nil
  then show ?case by simp
next
  case (Cons w ws)
  show ?case
  proof (cases i)
    case 0
    have "load64 (store_words (store64 m p w) (p + 8) ws) p = load64 (store64 m p w) p"
      by (rule load64_cong) (rule store_words_below, use Cons.prems in simp_all)
    then show ?thesis using 0 by (simp add: load64_store64)
  next
    case (Suc j)
    with Cons.prems have j: "j < length ws" and l: "8 * length ws + 8 \<le> 2 ^ 64" by simp_all
    have e: "p + 8 * of_nat i = (p + 8) + 8 * of_nat j" using Suc by simp
    have "load64 (store_words m p (w # ws)) (p + 8 * of_nat i) =
        load64 (store_words (store64 m p w) (p + 8) ws) ((p + 8) + 8 * of_nat j)"
      by (simp only: e store_words.simps)
    also have "\<dots> = ws ! j" by (rule Cons.IH [OF j l])
    finally show ?thesis using Suc by simp
  qed
qed

lemma region_addrs_fit:
  "unat p + 8 * k < 2 ^ 64 \<Longrightarrow>
   region_addrs p (p + 8 * of_nat k) = map (\<lambda>i. p + 8 * of_nat i) [0..<k]"
proof (induction k arbitrary: p)
  case 0
  then show ?case by (simp add: region_addrs.simps [of p p])
next
  case (Suc k)
  define N :: nat where "N = 2 ^ 64"
  define e :: addr where "e = p + 8 * of_nat (Suc k)"
  from Suc.prems have b: "unat p + 8 * k + 8 < N" by (simp add: N_def)
  have u8: "unat (p + 8) = unat p + 8"
    using b unat_add_lem [of p 8] by (simp add: N_def)
  have "8 * Suc k < N" using b by simp
  then have uk: "unat (8 * of_nat (Suc k) :: addr) = 8 * Suc k"
    unfolding N_def by (simp add: unat_word_ariths unat_of_nat)
  have ue: "unat e = unat p + 8 * Suc k"
    unfolding e_def using b unat_add_lem [of p "8 * of_nat (Suc k)"] uk by (simp add: N_def)
  have lt: "p < e"
    unfolding word_less_nat_alt ue by simp
  have nw: "\<not> p + 8 \<le> p"
    unfolding word_le_nat_alt u8 by simp
  have e: "e = (p + 8) + 8 * of_nat k" by (simp add: e_def)
  have ih: "region_addrs (p + 8) ((p + 8) + 8 * of_nat k) =
      map (\<lambda>i. (p + 8) + 8 * of_nat i) [0..<k]"
    by (rule Suc.IH) (use u8 b in \<open>simp add: N_def\<close>)
  have "region_addrs p e = p # region_addrs (p + 8) e"
    using lt nw by (subst region_addrs.simps) (simp only: if_True if_False)
  also have "\<dots> = p # map (\<lambda>i. (p + 8) + 8 * of_nat i) [0..<k]" by (simp only: e ih)
  also have "\<dots> = map (\<lambda>i. p + 8 * of_nat i) [0..<Suc k]"
    by (simp add: upt_conv_Cons map_Suc_upt [symmetric] del: upt_Suc)
  finally have "region_addrs p e = map (\<lambda>i. p + 8 * of_nat i) [0..<Suc k]" .
  then show ?case unfolding e_def .
qed

lemma load64_zero: "load64 (\<lambda>q. 0) p = 0"
  by (simp add: load64_def)

lemma snapshot_last:
  "load64 (store_words (memset m b 0 120) b (butlast (get_registers c))) (b + 112) = 0"
proof -
  let ?ws = "butlast (get_registers c)"
  let ?M = "store_words (memset m b 0 120) b ?ws"
  have "load64 ?M (b + 112) = load64 (\<lambda>q. 0) (b + 112)"
  proof (rule load64_cong)
    fix k :: addr assume k: "k < 8"
    then have uk: "unat k < 8" by (simp add: word_less_nat_alt)
    then have u: "unat (112 + k) = 112 + unat k"
      using unat_add_lem [of 112 k] by simp
    have d: "(b + 112 + k) - b = 112 + k" by simp
    have "?M (b + 112 + k) = memset m b 0 120 (b + 112 + k)"
    proof (rule ccontr)
      assume "?M (b + 112 + k) \<noteq> memset m b 0 120 (b + 112 + k)"
      then have "unat ((b + 112 + k) - b) < 8 * length ?ws" by (rule store_words_frame)
      then show False unfolding d u by (simp add: get_registers_def)
    qed
    also have "\<dots> = 0"
      unfolding memset_def d using u uk by (simp add: word_less_nat_alt)
    finally show "?M (b + 112 + k) = 0" .
  qed
  then show ?thesis by (simp only: load64_zero)
qed

text \<open>
  The words that the scan of the register buffer reads, \<^verbatim>\<open>registers[0]\<close> to
  \<^verbatim>\<open>registers[14]\<close>, are the list \<open>get_registers c\<close>.
\<close>

lemma snapshot_words:
  assumes "unat b + 120 < 2 ^ 64"
  shows "region_words (store_words (memset m b 0 120) b (butlast (get_registers c))) b 120 =
     get_registers c"
proof -
  let ?ws = "butlast (get_registers c)"
  let ?M = "store_words (memset m b 0 120) b ?ws"
  have l: "length (get_registers c) = 15" by (simp add: get_registers_def)
  have a: "region_addrs b (b + 8 * of_nat 15) = map (\<lambda>i. b + 8 * of_nat i) [0..<15]"
    by (rule region_addrs_fit) (use assms in simp)
  have "b + 120 = b + 8 * of_nat 15" by simp
  then have r: "region_words ?M b 120 = map (\<lambda>i. load64 ?M (b + 8 * of_nat i)) [0..<15]"
    unfolding region_words_def by (simp only: a map_map comp_def)
  have w: "load64 ?M (b + 8 * of_nat i) = get_registers c ! i" if i: "i < 15" for i
  proof (cases "i < 14")
    case True
    then have "i < length ?ws" by (simp add: get_registers_def)
    moreover have "8 * length ?ws + 8 \<le> 2 ^ 64" by (simp add: get_registers_def)
    ultimately have "load64 ?M (b + 8 * of_nat i) = ?ws ! i" by (rule load64_store_words)
    also have "\<dots> = get_registers c ! i"
      using True by (simp add: nth_butlast l)
    finally show ?thesis .
  next
    case False
    with i have e: "i = 14" by simp
    have "get_registers c ! 14 = 0" by (simp add: get_registers_def)
    then show ?thesis unfolding e using snapshot_last [of m b c] by simp
  qed
  show ?thesis
    unfolding r by (rule nth_equalityI) (simp_all add: l w)
qed

lemma marking_state_buffer_words:
  assumes "register_buffer pf s0 \<noteq> 0" and "unat (register_buffer pf s0) + 120 < 2 ^ 64"
  shows "region_words (mem (marking_state pf c s0)) (register_buffer pf s0) 120 =
     get_registers c"
  unfolding marking_state_eq [OF assms(1)] using assms(2) by (simp add: snapshot_words)

text \<open>
  So the mark phase of a collection is the three scans of \<^verbatim>\<open>gc_collect\<close>: of the
  register buffer, of the stack in use, and of the data segment.
\<close>

lemma mark_phase_from_buffer:
  assumes "register_buffer pf s0 \<noteq> 0" and "unat (register_buffer pf s0) + 120 < 2 ^ 64"
  shows "mark_phase c (marking_state pf c s0) =
     Option.bind
       (gc_collect_scan_block (marking_state pf c s0) (register_buffer pf s0) 120 [])
       (\<lambda>m1. Option.bind
          (gc_collect_scan_block (marking_state pf c s0) (get_stack_pointer c)
             (stack_start s0 + stack_length s0 - get_stack_pointer c) m1)
          (\<lambda>m2. gc_collect_scan_block (marking_state pf c s0)
                  (data_segment_start s0) (data_segment_length s0) m2))"
proof -
  have f: "stack_start (marking_state pf c s0) = stack_start s0"
    "stack_length (marking_state pf c s0) = stack_length s0"
    "data_segment_start (marking_state pf c s0) = data_segment_start s0"
    "data_segment_length (marking_state pf c s0) = data_segment_length s0"
    by (simp_all add: marking_state_eq [OF assms(1)])
  show ?thesis
    unfolding mark_phase_def f
    by (simp only: gc_collect_scan_block_def [of _ "register_buffer pf s0"]
        marking_state_buffer_words [OF assms])
qed

text \<open>
  The bytes that differ between the start of a collection and its mark phase are bytes of
  the register buffer.
\<close>

lemma marking_state_frame:
  assumes "register_buffer pf s0 \<noteq> 0" and "mem (marking_state pf c s0) p \<noteq> mem s0 p"
  shows "in_block p (register_buffer pf s0, 120)"
proof -
  let ?b = "register_buffer pf s0"
  let ?m = "memset (mem s0) ?b 0 120"
  have ms: "mem (marking_state pf c s0) = store_words ?m ?b (butlast (get_registers c))"
    by (simp add: marking_state_eq [OF assms(1)])
  show ?thesis
  proof (cases "store_words ?m ?b (butlast (get_registers c)) p = ?m p")
    case True
    with assms(2) have "?m p \<noteq> mem s0 p" by (simp add: ms)
    then show ?thesis by (auto simp: memset_def in_block_def split: if_splits)
  next
    case False
    then have "unat (p - ?b) < 8 * length (butlast (get_registers c))"
      by (rule store_words_frame)
    then have "unat (p - ?b) < 120" by (simp add: get_registers_def)
    then show ?thesis by (simp add: in_block_def word_less_nat_alt)
  qed
qed

lemma register_buffer_apart:
  assumes "calloc_ok pf" and "register_buffer pf s0 \<noteq> 0"
  shows "block_ok (register_buffer pf s0, 120)"
    and "\<forall>e \<in> set (allocations s0). apart (register_buffer pf s0, 120) e"
proof -
  let ?s = "s0\<lparr>calls := calls s0 @ [EvCollect]\<rparr>"
  have nz: "calloc pf ?s 120 \<noteq> 0" using assms(2) by (simp add: register_buffer_def)
  from assms(1) nz have "block_ok (calloc pf ?s 120, 120) \<and>
      list_all (apart (calloc pf ?s 120, 120)) (allocations ?s)"
    unfolding calloc_ok_def by blast
  then show "block_ok (register_buffer pf s0, 120)"
    and "\<forall>e \<in> set (allocations s0). apart (register_buffer pf s0, 120) e"
    by (simp_all add: register_buffer_def list_all_iff)
qed

lemma load64_bytes:
  "list_all (\<lambda>k. m (p + k) = m' (p + k)) [0, 1, 2, 3, 4, 5, 6, 7] \<Longrightarrow> load64 m p = load64 m' p"
  by (simp add: load64_def)

lemma region_words_clear:
  assumes "scan_clear b start len" and "\<And>q. m' q \<noteq> m q \<Longrightarrow> in_block q (b, 120)"
  shows "region_words m' start len = region_words m start len"
  unfolding region_words_def
proof (rule map_cong [OF refl])
  fix p assume "p \<in> set (region_addrs start (start + len))"
  with assms(1) have c: "list_all (\<lambda>k. \<not> in_block (p + k) (b, 120)) [0, 1, 2, 3, 4, 5, 6, 7]"
    by (simp add: scan_clear_def list_all_iff)
  have "list_all (\<lambda>k. m' (p + k) = m (p + k)) [0, 1, 2, 3, 4, 5, 6, 7]"
    unfolding list_all_iff
  proof
    fix k assume "k \<in> set [0, 1, 2, 3, 4, 5, 6, 7 :: addr]"
    with c have "\<not> in_block (p + k) (b, 120)" unfolding list_all_iff by blast
    with assms(2) show "m' (p + k) = m (p + k)" by blast
  qed
  then show "load64 m' p = load64 m p" by (rule load64_bytes)
qed

lemma reachable_subset:
  assumes "set roots \<subseteq> set roots'"
    and "\<And>a n. map_of A a = Some n \<Longrightarrow> region_words m a n = region_words m' a n"
    and "w \<in> reachable A m roots"
  shows "w \<in> reachable A m' roots'"
  using assms(3)
proof (induction rule: reachable.induct)
  case (root w n)
  with assms(1) show ?case by (auto intro: reachable.root)
next
  case (step a n w k)
  from step.hyps(2) have "region_words m a n = region_words m' a n" by (rule assms(2))
  with step show ?case by (auto intro: reachable.step)
qed

lemma reachable_cong:
  assumes "roots = roots'"
    and "\<And>a n. map_of A a = Some n \<Longrightarrow> region_words m a n = region_words m' a n"
  shows "reachable A m roots = reachable A m' roots'"
proof (intro set_eqI iffI)
  fix w assume "w \<in> reachable A m roots"
  with assms show "w \<in> reachable A m' roots'" by (intro reachable_subset [of roots roots' A m m']) simp_all
next
  fix w assume "w \<in> reachable A m' roots'"
  with assms show "w \<in> reachable A m roots" by (intro reachable_subset [of roots' roots A m' m]) simp_all
qed

text \<open>
  When the collection is clear of its register buffer, the blocks reachable in the mark
  phase are the blocks reachable in the state in which the collection started.
\<close>

lemma reachable_at_start:
  assumes "register_buffer pf s0 \<noteq> 0" and "buffer_clear pf c s0"
  shows "reachable (allocations s0) (mem (marking_state pf c s0))
           (root_words c (marking_state pf c s0)) =
         reachable (allocations s0) (mem s0) (root_words c s0)"
proof (rule reachable_cong)
  let ?ms = "marking_state pf c s0"
  let ?b = "register_buffer pf s0"
  have fr: "\<And>q. mem ?ms q \<noteq> mem s0 q \<Longrightarrow> in_block q (?b, 120)"
    using assms(1) by (rule marking_state_frame)
  have f: "stack_start ?ms = stack_start s0" "stack_length ?ms = stack_length s0"
    "data_segment_start ?ms = data_segment_start s0"
    "data_segment_length ?ms = data_segment_length s0"
    by (simp_all add: marking_state_eq [OF assms(1)])
  from assms(2) have
    c1: "scan_clear ?b (get_stack_pointer c) (stack_start s0 + stack_length s0 - get_stack_pointer c)"
    and c2: "scan_clear ?b (data_segment_start s0) (data_segment_length s0)"
    and c3: "list_all (\<lambda>e. scan_clear ?b (fst e) (snd e)) (allocations s0)"
    by (simp_all add: buffer_clear_def)
  show "root_words c ?ms = root_words c s0"
    unfolding root_words_def f
    by (simp only: region_words_clear [OF c1 fr] region_words_clear [OF c2 fr])
  fix a n assume "map_of (allocations s0) a = Some n"
  then have "(a, n) \<in> set (allocations s0)" by (rule map_of_SomeD)
  with c3 have "scan_clear ?b a n" by (auto simp: list_all_iff)
  then show "region_words (mem ?ms) a n = region_words (mem s0) a n"
    using fr by (rule region_words_clear)
qed

lemma gc_collect_frame:
  assumes "gc_init pf c s = Inr s0" and "register_buffer pf s0 \<noteq> 0"
    and "calloc_ok pf" and "heap_wf (allocations s0)"
  shows "\<exists>s'. gc_collect pf c s = Some (Inr s') \<and>
     (\<forall>a \<in> reachable (allocations s0) (mem (marking_state pf c s0))
              (root_words c (marking_state pf c s0)).
        map_of (allocations s') a = map_of (allocations s0) a \<and>
        EvFree a \<notin> set (drop (length (calls s0)) (calls s')) \<and>
        (\<forall>n p. map_of (allocations s0) a = Some n \<longrightarrow> in_block p (a, n) \<longrightarrow>
           mem s' p = mem s0 p)) \<and>
     (\<forall>p. mem s' p \<noteq> mem s0 p \<longrightarrow>
        in_block p (register_buffer pf s0, 120) \<or>
        (\<exists>e \<in> set (allocations s0).
           fst e \<notin> reachable (allocations s0) (mem (marking_state pf c s0))
                     (root_words c (marking_state pf c s0)) \<and>
           in_block p e)) \<and>
     (\<forall>a. EvFree a \<in> set (drop (length (calls s0)) (calls s')) \<longrightarrow>
        a = register_buffer pf s0 \<or>
        a \<in> fst ` set (allocations s0) \<and>
        a \<notin> reachable (allocations s0) (mem (marking_state pf c s0))
              (root_words c (marking_state pf c s0)))"
proof -
  let ?A = "allocations s0"
  let ?ms = "marking_state pf c s0"
  let ?b = "register_buffer pf s0"
  let ?R = "reachable ?A (mem ?ms) (root_words c ?ms)"
  obtain marked where k: "fst ` set marked = ?R"
    and d: "distinct (map fst marked)"
    and ent: "\<forall>e \<in> set marked. map_of ?A (fst e) = Some (snd e)"
    and g: "gc_collect pf c s =
      Some (Inr (sweep (?ms\<lparr>calls := calls s0 @ [EvCollect, EvCalloc 120 ?b, EvFree ?b]\<rparr>) marked))"
    using gc_collect_result [OF assms(1,2)] by blast
  let ?U = "unmarked ?A marked"
  let ?s' = "sweep (?ms\<lparr>calls := calls s0 @ [EvCollect, EvCalloc 120 ?b, EvFree ?b]\<rparr>) marked"
  have U: "set ?U = {e \<in> set ?A. fst e \<notin> ?R}"
    by (simp add: unmarked_set k)
  have al: "allocations ?s' = marked" by (simp add: sweep_eq)
  have ca: "drop (length (calls s0)) (calls ?s') =
      [EvCollect, EvCalloc 120 ?b, EvFree ?b] @ map (\<lambda>e. EvFree (fst e)) ?U"
    by (simp add: sweep_eq marking_state_eq [OF assms(2)])
  have me: "mem ?s' = (if overwrite_reclaimed_blocks s0 then wipe ?U (mem ?ms) else mem ?ms)"
    by (simp add: sweep_eq marking_state_eq [OF assms(2)])
  have wf: "\<forall>e \<in> set ?A. block_ok e"
    "\<forall>e \<in> set ?A. \<forall>e' \<in> set ?A. fst e \<noteq> fst e' \<longrightarrow> apart e e'"
    using assms(4) by (simp_all add: heap_wf_iff)
  have bo: "block_ok (?b, 120)" and ba: "\<forall>e \<in> set ?A. apart (?b, 120) e"
    using register_buffer_apart [OF assms(3) assms(2)] by blast+
  have fr: "\<And>a. EvFree a \<in> set (drop (length (calls s0)) (calls ?s')) \<Longrightarrow>
      a = ?b \<or> a \<in> fst ` set ?A \<and> a \<notin> ?R"
    unfolding ca using U by auto
  have ch: "\<And>p. mem ?s' p \<noteq> mem s0 p \<Longrightarrow>
      in_block p (?b, 120) \<or> (\<exists>e \<in> set ?A. fst e \<notin> ?R \<and> in_block p e)"
  proof -
    fix p assume ne: "mem ?s' p \<noteq> mem s0 p"
    show "in_block p (?b, 120) \<or> (\<exists>e \<in> set ?A. fst e \<notin> ?R \<and> in_block p e)"
    proof (cases "mem ?s' p = mem ?ms p")
      case True
      with ne have "mem ?ms p \<noteq> mem s0 p" by simp
      with assms(2) have "in_block p (?b, 120)" by (rule marking_state_frame)
      then show ?thesis ..
    next
      case False
      then have "list_ex (in_block p) ?U"
        unfolding me by (auto simp: wipe_def split: if_splits)
      then obtain e where "e \<in> set ?U" and "in_block p e" by (auto simp: list_ex_iff)
      with U have "\<exists>e \<in> set ?A. fst e \<notin> ?R \<and> in_block p e" by blast
      then show ?thesis ..
    qed
  qed
  have keep: "\<And>a n p. a \<in> ?R \<Longrightarrow> map_of ?A a = Some n \<Longrightarrow> in_block p (a, n) \<Longrightarrow>
      mem ?s' p = mem s0 p"
  proof (rule ccontr)
    fix a n p assume a: "a \<in> ?R" and n: "map_of ?A a = Some n" and p: "in_block p (a, n)"
      and "mem ?s' p \<noteq> mem s0 p"
    from n have an: "(a, n) \<in> set ?A" by (rule map_of_SomeD)
    have ok: "block_ok (a, n)" using wf(1) an by blast
    from ch [OF \<open>mem ?s' p \<noteq> mem s0 p\<close>]
    consider "in_block p (?b, 120)"
      | e where "e \<in> set ?A" "fst e \<notin> ?R" "in_block p e" by blast
    then show False
    proof cases
      case 1
      from ba an have "apart (?b, 120) (a, n)" by blast
      with bo ok 1 have "\<not> in_block p (a, n)" by (intro apart_in_block [of "(?b, 120)" "(a, n)" p])
      with p show False by contradiction
    next
      case 2
      from a 2(2) have "fst (a, n) \<noteq> fst e" by auto
      with wf(2) an 2(1) have "apart (a, n) e" by blast
      moreover have "block_ok e" using wf(1) 2(1) by blast
      ultimately have "\<not> in_block p e" using ok p by (intro apart_in_block [of "(a, n)" e p])
      with 2(3) show False by contradiction
    qed
  qed
  have nb: "\<And>a. a \<in> ?R \<Longrightarrow> a \<noteq> ?b"
  proof
    fix a assume a: "a \<in> ?R" and e: "a = ?b"
    from a k obtain x where x: "x \<in> set marked" and ax: "a = fst x" by blast
    from ent x have "map_of ?A (fst x) = Some (snd x)" by blast
    then have "(fst x, snd x) \<in> set ?A" by (rule map_of_SomeD)
    with ba have "apart (?b, 120) (fst x, snd x)" by blast
    then show False using e ax by (simp add: apart_def)
  qed
  have nf: "\<And>a. a \<in> ?R \<Longrightarrow> EvFree a \<notin> set (drop (length (calls s0)) (calls ?s'))"
  proof
    fix a assume a: "a \<in> ?R" and "EvFree a \<in> set (drop (length (calls s0)) (calls ?s'))"
    from fr [OF this(2)] a nb [OF a] show False by blast
  qed
  have ma: "\<And>a. a \<in> ?R \<Longrightarrow> map_of (allocations ?s') a = map_of ?A a"
    unfolding al using map_of_marked [OF d ent] k by simp
  have "(\<forall>a \<in> ?R. map_of (allocations ?s') a = map_of ?A a \<and>
        EvFree a \<notin> set (drop (length (calls s0)) (calls ?s')) \<and>
        (\<forall>n p. map_of ?A a = Some n \<longrightarrow> in_block p (a, n) \<longrightarrow> mem ?s' p = mem s0 p)) \<and>
     (\<forall>p. mem ?s' p \<noteq> mem s0 p \<longrightarrow>
        in_block p (?b, 120) \<or> (\<exists>e \<in> set ?A. fst e \<notin> ?R \<and> in_block p e)) \<and>
     (\<forall>a. EvFree a \<in> set (drop (length (calls s0)) (calls ?s')) \<longrightarrow>
        a = ?b \<or> a \<in> fst ` set ?A \<and> a \<notin> ?R)"
    using ma nf fr ch keep by blast
  with g show ?thesis by blast
qed

text \<open>
  Claim C3. Let a collection start in the state \<open>s0\<close>, whose table holds blocks that are
  apart, let \<^verbatim>\<open>calloc\<close> keep its contract and return a register buffer, and take the
  roots as the mark phase reads them: the register buffer once it is filled, the stack in
  use and the data segment. Then the collection returns, and for every block reachable from
  the roots, the table after the collection maps its base address to the same size, the
  block is not freed, and every byte of the block is as it was in \<open>s0\<close>. A byte that
  the collection changed lies in the register buffer, which is the collector's own, or in
  a block of the table that is not reachable; what the collection frees is the register
  buffer and blocks of the table that are not reachable. When no scan of the collection
  reads a byte of the register buffer, the blocks reachable from the roots of the mark
  phase are the blocks reachable from the registers, the stack in use and the data
  segment in \<open>s0\<close> itself.
\<close>

theorem gc_collect_preserves_reachable:
  assumes "gc_init pf c s = Inr s0" and "register_buffer pf s0 \<noteq> 0"
    and "calloc_ok pf" and "heap_wf (allocations s0)"
  shows "\<exists>s'. gc_collect pf c s = Some (Inr s') \<and>
     (\<forall>a \<in> reachable (allocations s0) (mem (marking_state pf c s0))
              (root_words c (marking_state pf c s0)).
        map_of (allocations s') a = map_of (allocations s0) a \<and>
        EvFree a \<notin> set (drop (length (calls s0)) (calls s')) \<and>
        (\<forall>n p. map_of (allocations s0) a = Some n \<longrightarrow> in_block p (a, n) \<longrightarrow>
           mem s' p = mem s0 p)) \<and>
     (\<forall>p. mem s' p \<noteq> mem s0 p \<longrightarrow>
        in_block p (register_buffer pf s0, 120) \<or>
        (\<exists>e \<in> set (allocations s0).
           fst e \<notin> reachable (allocations s0) (mem (marking_state pf c s0))
                     (root_words c (marking_state pf c s0)) \<and>
           in_block p e)) \<and>
     (\<forall>a. EvFree a \<in> set (drop (length (calls s0)) (calls s')) \<longrightarrow>
        a = register_buffer pf s0 \<or>
        a \<in> fst ` set (allocations s0) \<and>
        a \<notin> reachable (allocations s0) (mem (marking_state pf c s0))
              (root_words c (marking_state pf c s0))) \<and>
     (buffer_clear pf c s0 \<longrightarrow>
        reachable (allocations s0) (mem (marking_state pf c s0))
          (root_words c (marking_state pf c s0)) =
        reachable (allocations s0) (mem s0) (root_words c s0))"
proof -
  let ?R = "reachable (allocations s0) (mem (marking_state pf c s0))
              (root_words c (marking_state pf c s0))"
  from gc_collect_frame [OF assms]
  obtain s' where g: "gc_collect pf c s = Some (Inr s')"
    and a: "\<forall>a \<in> ?R.
        map_of (allocations s') a = map_of (allocations s0) a \<and>
        EvFree a \<notin> set (drop (length (calls s0)) (calls s')) \<and>
        (\<forall>n p. map_of (allocations s0) a = Some n \<longrightarrow> in_block p (a, n) \<longrightarrow>
           mem s' p = mem s0 p)"
    and b: "\<forall>p. mem s' p \<noteq> mem s0 p \<longrightarrow>
        in_block p (register_buffer pf s0, 120) \<or>
        (\<exists>e \<in> set (allocations s0). fst e \<notin> ?R \<and> in_block p e)"
    and c: "\<forall>a. EvFree a \<in> set (drop (length (calls s0)) (calls s')) \<longrightarrow>
        a = register_buffer pf s0 \<or> a \<in> fst ` set (allocations s0) \<and> a \<notin> ?R"
    by blast
  have d: "buffer_clear pf c s0 \<longrightarrow>
      ?R = reachable (allocations s0) (mem s0) (root_words c s0)"
    using reachable_at_start [OF assms(2)] by blast
  show ?thesis
    apply (rule exI [of _ s'])
    using g a b c d apply (intro conjI)
        apply assumption+
    done
qed

subsection \<open>Collections of the small machine\<close>

lemma mark_phase_max_heap [simp]: "mark_phase c (s\<lparr>max_heap_size := x\<rparr>) = mark_phase c s"
  by (simp add: mark_phase_def gc_collect_scan_block_def)

lemma mark_phase_cong:
  assumes "allocations s = allocations t" and "mem s = mem t"
    and "stack_start s = stack_start t" and "stack_length s = stack_length t"
    and "data_segment_start s = data_segment_start t"
    and "data_segment_length s = data_segment_length t"
  shows "mark_phase c s = mark_phase c t"
  using assms by (simp add: mark_phase_def gc_collect_scan_block_def)

lemma arena_top_ge: "t \<le> fold (\<lambda>e t. max t (((unat (fst e) + unat (snd e)) div 16 + 1) * 16)) A t"
  by (induction A arbitrary: t) (auto intro: order_trans [OF max.cobounded1])

lemma arena_top_above:
  "e \<in> set A \<Longrightarrow>
   unat (fst e) + unat (snd e) < fold (\<lambda>e t. max t (((unat (fst e) + unat (snd e)) div 16 + 1) * 16)) A t"
proof (induction A arbitrary: t)
  case Nil
  then show ?case by simp
next
  case (Cons x A)
  let ?f = "\<lambda>e t. max t (((unat (fst e) + unat (snd e)) div (16::nat) + 1) * 16)"
  show ?case
  proof (cases "e = x")
    case True
    have "unat (fst e) + unat (snd e) < ((unat (fst e) + unat (snd e)) div 16 + 1) * 16"
      by presburger
    also have "\<dots> \<le> ?f x t" using True by simp
    also have "\<dots> \<le> fold ?f A (?f x t)" by (rule arena_top_ge)
    finally show ?thesis by simp
  next
    case False
    with Cons.prems have "e \<in> set A" by simp
    from Cons.IH [OF this] show ?thesis by simp
  qed
qed

lemma calloc_ok_demo: "calloc_ok demo_platform"
  unfolding calloc_ok_def
proof (intro allI impI)
  fix s :: gc_state and n :: addr
  let ?A = "allocations s"
  let ?p = "calloc demo_platform s n"
  assume nz: "?p \<noteq> 0"
  have p: "?p = (if arena_top ?A + unat n \<le> 12544 then of_nat (arena_top ?A) else 0)"
    by (simp add: demo_platform_def arena_calloc_def)
  with nz have fit: "arena_top ?A + unat n \<le> 12544" and pe: "?p = of_nat (arena_top ?A)"
    by (auto split: if_splits)
  have "arena_top ?A < 2 ^ 64" using fit by simp
  then have u: "unat ?p = arena_top ?A"
    unfolding pe by (simp add: unat_of_nat)
  have ok: "block_ok (?p, n)"
    using nz fit by (simp add: block_ok_def u)
  have "\<forall>e \<in> set ?A. apart (?p, n) e"
  proof
    fix e assume "e \<in> set ?A"
    then have lt: "unat (fst e) + unat (snd e) < arena_top ?A"
      unfolding arena_top_def by (rule arena_top_above)
    then have "unat (fst e) < unat ?p" using u by simp
    then have "fst e \<noteq> ?p" by auto
    with lt u show "apart (?p, n) e" by (auto simp: apart_def)
  qed
  then have "list_all (apart (?p, n)) ?A" by (simp add: list_all_iff)
  with ok show "block_ok (?p, n) \<and> list_all (apart (?p, n)) ?A" by simp
qed

lemma arena_top_none: "arena_top [] = 12288"
  by (simp add: arena_top_def)


lemma arena_top_three: "arena_top [(0x3000, 8), (0x3010, 8), (0x3020, 8)] = 12336"
  by (simp add: arena_top_def)

lemma demo_init: "gc_init pf c demo_state = Inr demo_state"
  by (simp add: gc_init_def demo_state_def)

lemma demo_unmarked:
  "unmarked (allocations demo_state) [(0x3000, 8), (0x3010, 8)] = [(0x3020, 8)]"
  by (simp add: unmarked_def demo_state_def)

lemma demo_heap_wf: "heap_wf (allocations demo_state)"
  by (simp add: demo_state_def block_ok_def apart_def)

lemma demo_marking_mark:
  "mark_phase demo_cpu (demo_state\<lparr>mem := demo_marking_mem\<rparr>) = Some [(0x3000, 8), (0x3010, 8)]"
  by code_simp

text \<open>
  The collections of the states that differ from \<open>demo_state\<close> in the cap and in the
  calls recorded so far: the register buffer is at \<open>0x3030\<close>, the blocks at \<open>0x3000\<close>
  and \<open>0x3010\<close> are marked.
\<close>

lemma demo_like_buffer:
  "register_buffer demo_platform (demo_state\<lparr>max_heap_size := h, calls := cs\<rparr>) = 0x3030"
  by (simp add: register_buffer_def demo_platform_def arena_calloc_def demo_state_def
      arena_top_three)

lemma demo_like_marking:
  "marking_state demo_platform demo_cpu (demo_state\<lparr>max_heap_size := h, calls := cs\<rparr>) =
     demo_state\<lparr>max_heap_size := h, mem := demo_marking_mem,
                 calls := cs @ [EvCollect, EvCalloc 120 0x3030]\<rparr>"
proof -
  let ?s = "demo_state\<lparr>max_heap_size := h, calls := cs\<rparr>"
  have nz: "register_buffer demo_platform ?s \<noteq> 0" by (simp add: demo_like_buffer)
  show ?thesis
    unfolding marking_state_eq [OF nz] demo_like_buffer demo_marking_mem_def by simp
qed

lemma demo_like_mark:
  "mark_phase demo_cpu (marking_state demo_platform demo_cpu
      (demo_state\<lparr>max_heap_size := h, calls := cs\<rparr>)) = Some [(0x3000, 8), (0x3010, 8)]"
  unfolding demo_like_marking
  by (rule trans [OF mark_phase_cong demo_marking_mark]) simp_all

lemma demo_like_collect:
  "gc_collect demo_platform demo_cpu (demo_state\<lparr>max_heap_size := h, calls := cs\<rparr>) =
     Some (Inr (sweep (demo_state\<lparr>max_heap_size := h, mem := demo_marking_mem,
                         calls := cs @ [EvCollect, EvCalloc 120 0x3030, EvFree 0x3030]\<rparr>)
                  [(0x3000, 8), (0x3010, 8)]))"
proof -
  let ?s = "demo_state\<lparr>max_heap_size := h, calls := cs\<rparr>"
  have i: "gc_init demo_platform demo_cpu ?s = Inr ?s"
    by (simp add: gc_init_def demo_state_def)
  have nz: "register_buffer demo_platform ?s \<noteq> 0" by (simp add: demo_like_buffer)
  show ?thesis
    using gc_collect_eq [OF i nz demo_like_mark]
    by (simp add: demo_like_marking demo_like_buffer)
qed

lemma demo_state_like: "demo_state = demo_state\<lparr>max_heap_size := 24, calls := []\<rparr>"
  by (simp add: demo_state_def)

lemma demo_buffer: "register_buffer demo_platform demo_state = 0x3030"
  using demo_like_buffer [where h = 24 and cs = "[]"] by (simp add: demo_state_like [symmetric])

lemma demo_buffer_nz: "register_buffer demo_platform demo_state \<noteq> 0"
  by (simp add: demo_buffer)

lemma demo_buffer_clear: "buffer_clear demo_platform demo_cpu demo_state"
  unfolding buffer_clear_def demo_buffer
  by (simp add: scan_clear_def demo_state_def get_stack_pointer_def demo_cpu_def
      in_block_def region_addrs.simps)

lemma demo_marking:
  "mark_phase demo_cpu (marking_state demo_platform demo_cpu demo_state) =
     Some [(0x3000, 8), (0x3010, 8)]"
  using demo_like_mark [where h = 24 and cs = "[]"] by (simp add: demo_state_like [symmetric])

text \<open>
  Claim C2 at \<open>demo_state\<close>: the register buffer is allocated and released, the block at
  \<open>0x3020\<close> is freed and overwritten, and the total falls from 24 to 16.
\<close>

theorem gc_collect_sweeps_unmarked_witness:
  "\<exists>s'. gc_collect demo_platform demo_cpu demo_state = Some (Inr s') \<and>
     allocations s' = [(0x3000, 8), (0x3010, 8)] \<and>
     current_allocated s' = 16 \<and>
     calls s' = [EvCollect, EvCalloc 120 0x3030, EvFree 0x3030, EvFree 0x3020] \<and>
     mem s' (0x3020 + 7) = 0xab"
proof -
  let ?ms = "marking_state demo_platform demo_cpu demo_state"
  from gc_collect_sweeps_unmarked
    [where pf = demo_platform and c = demo_cpu, OF demo_init demo_buffer_nz]
  obtain marked s' where m: "mark_phase demo_cpu ?ms = Some marked"
    and g: "gc_collect demo_platform demo_cpu demo_state = Some (Inr s')"
    and a: "allocations s' = marked"
    and b: "current_allocated s' =
       current_allocated demo_state - sum_list (map snd (unmarked (allocations demo_state) marked))"
    and c: "calls s' = calls demo_state @
       [EvCollect, EvCalloc 120 (register_buffer demo_platform demo_state),
        EvFree (register_buffer demo_platform demo_state)] @
       map (\<lambda>e. EvFree (fst e)) (unmarked (allocations demo_state) marked)"
    and e: "\<forall>e \<in> set (unmarked (allocations demo_state) marked). \<forall>i. i < snd e \<longrightarrow>
        mem s' (fst e + i) =
          (if overwrite_reclaimed_blocks demo_state then 0xab else mem ?ms (fst e + i))"
    by blast
  from m have marked: "marked = [(0x3000, 8), (0x3010, 8)]" by (simp add: demo_marking)
  have "current_allocated s' = 16"
    unfolding b marked demo_unmarked by (simp add: demo_state_def)
  moreover have "calls s' = [EvCollect, EvCalloc 120 0x3030, EvFree 0x3030, EvFree 0x3020]"
    unfolding c marked demo_unmarked demo_buffer by (simp add: demo_state_def)
  moreover have "\<forall>i. i < 8 \<longrightarrow> mem s' (0x3020 + i) = 0xab"
    using e unfolding marked demo_unmarked by (simp add: demo_state_def)
  then have "mem s' (0x3020 + 7) = 0xab"
    by (rule allE [of _ 7]) simp
  ultimately show ?thesis using g a marked by blast
qed

text \<open>Claim C3 at \<open>demo_state\<close>: the reachable blocks keep their entries and their bytes.\<close>

theorem gc_collect_preserves_reachable_witness:
  "reachable (allocations demo_state) (mem demo_state) (root_words demo_cpu demo_state) =
     {0x3000, 0x3010} \<and>
   (\<exists>s'. gc_collect demo_platform demo_cpu demo_state = Some (Inr s') \<and>
     map_of (allocations s') 0x3010 = Some 8 \<and>
     mem s' 0x3000 = mem demo_state 0x3000 \<and>
     EvFree 0x3010 \<notin> set (calls s'))"
proof -
  let ?ms = "marking_state demo_platform demo_cpu demo_state"
  let ?R = "reachable (allocations demo_state) (mem ?ms) (root_words demo_cpu ?ms)"
  from gc_collect_preserves_reachable
    [where pf = demo_platform and c = demo_cpu,
     OF demo_init demo_buffer_nz calloc_ok_demo demo_heap_wf]
  obtain s' where g: "gc_collect demo_platform demo_cpu demo_state = Some (Inr s')"
    and r: "\<forall>a \<in> ?R.
        map_of (allocations s') a = map_of (allocations demo_state) a \<and>
        EvFree a \<notin> set (drop (length (calls demo_state)) (calls s')) \<and>
        (\<forall>n p. map_of (allocations demo_state) a = Some n \<longrightarrow> in_block p (a, n) \<longrightarrow>
           mem s' p = mem demo_state p)"
    and d: "buffer_clear demo_platform demo_cpu demo_state \<longrightarrow>
        ?R = reachable (allocations demo_state) (mem demo_state)
               (root_words demo_cpu demo_state)"
    by blast
  have al: "allocations ?ms = allocations demo_state"
    by (simp add: marking_state_eq [OF demo_buffer_nz])
  obtain marked where "mark_phase demo_cpu ?ms = Some marked"
    and "fst ` set marked = reachable (allocations ?ms) (mem ?ms) (root_words demo_cpu ?ms)"
    using mark_phase_result by blast
  then have R: "?R = {0x3000, 0x3010}" unfolding al by (auto simp: demo_marking)
  have "map_of (allocations s') 0x3010 = Some 8"
    using r R by (simp add: demo_state_def)
  moreover have "in_block 0x3000 (0x3000, 8)" by (simp add: in_block_def)
  then have "mem s' 0x3000 = mem demo_state 0x3000"
    using r R by (simp add: demo_state_def)
  moreover have "EvFree 0x3010 \<notin> set (calls s')"
    using r R by (simp add: demo_state_def)
  moreover have "reachable (allocations demo_state) (mem demo_state)
      (root_words demo_cpu demo_state) = {0x3000, 0x3010}"
    using d demo_buffer_clear R by simp
  ultimately show ?thesis using g by blast
qed

section \<open>The allocator\<close>

lemma gc_init_Inr_initialized: "gc_init pf c s = Inr s0 \<Longrightarrow> gc_initialized s0"
  by (auto simp: gc_init_def Let_def split: if_splits prod.splits option.splits)


lemma internal_alloc_fields:
  "gc_initialized (snd (internal_alloc pf s n)) = gc_initialized s"
  "allocations (snd (internal_alloc pf s n)) = allocations s"
  "current_allocated (snd (internal_alloc pf s n)) = current_allocated s"
  "max_heap_size (snd (internal_alloc pf s n)) = max_heap_size s"
  "overwrite_reclaimed_blocks (snd (internal_alloc pf s n)) = overwrite_reclaimed_blocks s"
  by (simp_all add: internal_alloc_def calloc1_def Let_def)

lemma internal_alloc_calls:
  "calls (snd (internal_alloc pf s n)) =
     calls s @ EvInternalAlloc n #
       (if 0 < max_heap_size s \<and> max_heap_size s < current_allocated s + n then []
        else [EvCalloc n (fst (internal_alloc pf s n))])"
  by (auto simp: internal_alloc_def calloc1_def Let_def)


lemma internal_alloc_ptr:
  "fst (internal_alloc pf s n) =
     (if 0 < max_heap_size s \<and> max_heap_size s < current_allocated s + n then 0
      else calloc pf (s\<lparr>calls := calls s @ [EvInternalAlloc n]\<rparr>) n)"
  by (auto simp: internal_alloc_def calloc1_def Let_def)

lemma record_allocation_fields:
  "fst (record_allocation n r) = fst r"
  "calls (snd (record_allocation n r)) = calls (snd r)"
  "mem (snd (record_allocation n r)) = mem (snd r)"
  "max_heap_size (snd (record_allocation n r)) = max_heap_size (snd r)"
  "gc_initialized (snd (record_allocation n r)) = gc_initialized (snd r)"
  "allocations (snd (record_allocation n r)) =
     (if fst r \<noteq> 0 then heapmap_assign (fst r) n (allocations (snd r)) else allocations (snd r))"
  "current_allocated (snd (record_allocation n r)) =
     (if fst r \<noteq> 0 then current_allocated (snd r) + n else current_allocated (snd r))"
  by (cases r; simp add: record_allocation_def)+

lemma sweep_fields:
  "gc_initialized (sweep s marked) = gc_initialized s"
  "max_heap_size (sweep s marked) = max_heap_size s"
  "allocations (sweep s marked) = marked"
  "current_allocated (sweep s marked) =
     current_allocated s - sum_list (map snd (unmarked (allocations s) marked))"
  "calls (sweep s marked) = calls s @ map (\<lambda>e. EvFree (fst e)) (unmarked (allocations s) marked)"
  "overwrite_reclaimed_blocks (sweep s marked) = overwrite_reclaimed_blocks s"
  by (simp_all add: sweep_eq)

text \<open>The paths of \<^verbatim>\<open>gc_alloc\<close>.\<close>

lemma gc_alloc_init_fault:
  "gc_init pf c s = Inl f \<Longrightarrow> gc_alloc pf c s n = Some (Inl f)"
  by (simp add: gc_alloc_def)

lemma gc_alloc_first:
  assumes "gc_init pf c s = Inr s0" and "fst (internal_alloc pf s0 n) \<noteq> 0"
  shows "gc_alloc pf c s n = Some (Inr (record_allocation n (internal_alloc pf s0 n)))"
  using assms by (cases "internal_alloc pf s0 n") (simp add: gc_alloc_def)

lemma gc_alloc_retry:
  assumes "gc_init pf c s = Inr s0" and "fst (internal_alloc pf s0 n) = 0"
    and "gc_collect pf c (snd (internal_alloc pf s0 n)) = Some (Inr s2)"
  shows "gc_alloc pf c s n = Some (Inr (record_allocation n (internal_alloc pf s2 n)))"
  using assms by (cases "internal_alloc pf s0 n") (simp add: gc_alloc_def)

lemma gc_alloc_collect_fault:
  assumes "gc_init pf c s = Inr s0" and "fst (internal_alloc pf s0 n) = 0"
    and "gc_collect pf c (snd (internal_alloc pf s0 n)) = Some (Inl f)"
  shows "gc_alloc pf c s n = Some (Inl f)"
  using assms by (cases "internal_alloc pf s0 n") (simp add: gc_alloc_def)

lemma gc_alloc_no_buffer:
  assumes "gc_init pf c s = Inr s0" and "fst (internal_alloc pf s0 n) = 0"
    and "register_buffer pf (snd (internal_alloc pf s0 n)) = 0"
  shows "gc_alloc pf c s n = Some (Inl NullDereference)"
proof -
  let ?s1 = "snd (internal_alloc pf s0 n)"
  have "gc_initialized ?s1"
    using gc_init_Inr_initialized [OF assms(1)] by (simp add: internal_alloc_fields)
  then have "gc_init pf c ?s1 = Inr ?s1" by (rule gc_init_initialized)
  then have "gc_collect pf c ?s1 = Some (Inl NullDereference)"
    using assms(3) by (rule gc_collect_no_buffer)
  with assms(1,2) show ?thesis by (rule gc_alloc_collect_fault)
qed

text \<open>
  The collection that \<^verbatim>\<open>gc_alloc\<close> runs after a failed first attempt, when
  \<^verbatim>\<open>calloc\<close> returns a register buffer.
\<close>

lemma gc_alloc_collection:
  assumes "gc_init pf c s = Inr s0" and "fst (internal_alloc pf s0 n) = 0"
    and "register_buffer pf (snd (internal_alloc pf s0 n)) \<noteq> 0"
  shows "\<exists>marked s2. gc_collect pf c (snd (internal_alloc pf s0 n)) = Some (Inr s2) \<and>
     calls s2 =
       calls (snd (internal_alloc pf s0 n)) @
       [EvCollect, EvCalloc 120 (register_buffer pf (snd (internal_alloc pf s0 n))),
        EvFree (register_buffer pf (snd (internal_alloc pf s0 n)))] @
       map (\<lambda>e. EvFree (fst e)) (unmarked (allocations s0) marked) \<and>
     max_heap_size s2 = max_heap_size s0 \<and> gc_initialized s2 \<and>
     gc_alloc pf c s n = Some (Inr (record_allocation n (internal_alloc pf s2 n)))"
proof -
  let ?s1 = "snd (internal_alloc pf s0 n)"
  have "gc_initialized ?s1"
    using gc_init_Inr_initialized [OF assms(1)] by (simp add: internal_alloc_fields)
  then have i1: "gc_init pf c ?s1 = Inr ?s1" by (rule gc_init_initialized)
  from gc_collect_sweep [OF i1 assms(3)]
  obtain marked s2 where col: "gc_collect pf c ?s1 = Some (Inr s2)"
    and ca: "calls s2 = calls ?s1 @
       [EvCollect, EvCalloc 120 (register_buffer pf ?s1), EvFree (register_buffer pf ?s1)] @
       map (\<lambda>e. EvFree (fst e)) (unmarked (allocations ?s1) marked)"
    and mx: "max_heap_size s2 = max_heap_size ?s1" and gi: "gc_initialized s2"
    by blast
  have g: "gc_alloc pf c s n = Some (Inr (record_allocation n (internal_alloc pf s2 n)))"
    using assms(1,2) col by (rule gc_alloc_retry)
  from ca have ca': "calls s2 = calls ?s1 @
       [EvCollect, EvCalloc 120 (register_buffer pf ?s1), EvFree (register_buffer pf ?s1)] @
       map (\<lambda>e. EvFree (fst e)) (unmarked (allocations s0) marked)"
    by (simp only: internal_alloc_fields)
  from mx have mx': "max_heap_size s2 = max_heap_size s0"
    by (simp only: internal_alloc_fields)
  show ?thesis
    apply (rule exI [of _ marked])
    apply (rule exI [of _ s2])
    using col ca' mx' gi g apply (intro conjI)
        apply assumption+
    done
qed

lemma filter_control_frees: "filter is_control (map (\<lambda>e. EvFree (fst e)) xs) = []"
  by (induction xs) simp_all


lemma internal_alloc_control:
  "\<exists>cs. calls (snd (internal_alloc pf s n)) = calls s @ EvInternalAlloc n # cs \<and>
        filter is_control cs = [] \<and>
        filter is_calloc cs =
          (if 0 < max_heap_size s \<and> max_heap_size s < current_allocated s + n then []
           else [EvCalloc n (fst (internal_alloc pf s n))])"
  by (simp add: internal_alloc_calls)

text \<open>
  When the collection gets its register buffer, \<^verbatim>\<open>gc_alloc\<close> returns, and the calls
  of \<^verbatim>\<open>internal_alloc\<close> and \<^verbatim>\<open>gc_collect\<close> it makes are these: when the first
  \<^verbatim>\<open>internal_alloc\<close> returns a block, that one call and no collection, and the block
  is the result; when it returns null, one collection and then one more
  \<^verbatim>\<open>internal_alloc\<close>, whose result, null or not, is the result of \<^verbatim>\<open>gc_alloc\<close>.
\<close>

lemma gc_alloc_control_calls:
  assumes "gc_init pf c s = Inr s0"
    and "fst (internal_alloc pf s0 n) = 0 \<longrightarrow>
         register_buffer pf (snd (internal_alloc pf s0 n)) \<noteq> 0"
  shows "\<exists>p s'. gc_alloc pf c s n = Some (Inr (p, s')) \<and>
     take (length (calls s0)) (calls s') = calls s0 \<and>
     (if fst (internal_alloc pf s0 n) \<noteq> 0
      then p = fst (internal_alloc pf s0 n) \<and>
           filter is_control (drop (length (calls s0)) (calls s')) = [EvInternalAlloc n]
      else (\<exists>s2. gc_collect pf c (snd (internal_alloc pf s0 n)) = Some (Inr s2) \<and>
                 p = fst (internal_alloc pf s2 n)) \<and>
           filter is_control (drop (length (calls s0)) (calls s')) =
             [EvInternalAlloc n, EvCollect, EvInternalAlloc n])"
proof (cases "fst (internal_alloc pf s0 n) = 0")
  case False
  let ?r = "record_allocation n (internal_alloc pf s0 n)"
  obtain cs where cs: "calls (snd (internal_alloc pf s0 n)) = calls s0 @ EvInternalAlloc n # cs"
    and f: "filter is_control cs = []"
    using internal_alloc_control by blast
  have g: "gc_alloc pf c s n = Some (Inr (fst ?r, snd ?r))"
    using gc_alloc_first [OF assms(1) False] by simp
  have c: "calls (snd ?r) = calls s0 @ EvInternalAlloc n # cs"
    by (simp add: record_allocation_fields cs)
  have "take (length (calls s0)) (calls (snd ?r)) = calls s0"
    unfolding c by simp
  moreover have "filter is_control (drop (length (calls s0)) (calls (snd ?r))) = [EvInternalAlloc n]"
    unfolding c by (simp add: f)
  moreover have "fst ?r = fst (internal_alloc pf s0 n)"
    by (simp add: record_allocation_fields)
  ultimately show ?thesis using g False by auto
next
  case True
  let ?s1 = "snd (internal_alloc pf s0 n)"
  let ?b = "register_buffer pf ?s1"
  from assms(2) True have nz: "?b \<noteq> 0" by simp
  from gc_alloc_collection [OF assms(1) True nz]
  obtain marked s2 where col: "gc_collect pf c ?s1 = Some (Inr s2)"
    and c2: "calls s2 = calls ?s1 @ [EvCollect, EvCalloc 120 ?b, EvFree ?b] @
       map (\<lambda>e. EvFree (fst e)) (unmarked (allocations s0) marked)"
    and g0: "gc_alloc pf c s n = Some (Inr (record_allocation n (internal_alloc pf s2 n)))"
    by blast
  let ?r = "record_allocation n (internal_alloc pf s2 n)"
  let ?frees = "map (\<lambda>e. EvFree (fst e)) (unmarked (allocations s0) marked)"
  obtain cs1 where cs1: "calls ?s1 = calls s0 @ EvInternalAlloc n # cs1"
    and f1: "filter is_control cs1 = []"
    using internal_alloc_control by blast
  obtain cs2 where cs2: "calls (snd (internal_alloc pf s2 n)) = calls s2 @ EvInternalAlloc n # cs2"
    and f2: "filter is_control cs2 = []"
    using internal_alloc_control by blast
  have g: "gc_alloc pf c s n = Some (Inr (fst ?r, snd ?r))"
    using g0 by simp
  have "calls (snd ?r) = calls (snd (internal_alloc pf s2 n))"
    by (simp only: record_allocation_fields)
  also have "\<dots> = calls s2 @ EvInternalAlloc n # cs2"
    by (rule cs2)
  also have "\<dots> = (calls ?s1 @ [EvCollect, EvCalloc 120 ?b, EvFree ?b] @ ?frees) @
      EvInternalAlloc n # cs2"
    by (simp only: c2)
  also have "\<dots> = ((calls s0 @ EvInternalAlloc n # cs1) @
      [EvCollect, EvCalloc 120 ?b, EvFree ?b] @ ?frees) @ EvInternalAlloc n # cs2"
    by (simp only: cs1)
  finally have c: "calls (snd ?r) = calls s0 @ (EvInternalAlloc n # cs1) @
      [EvCollect, EvCalloc 120 ?b, EvFree ?b] @ ?frees @ EvInternalAlloc n # cs2"
    by simp
  have "take (length (calls s0)) (calls (snd ?r)) = calls s0"
    unfolding c by simp
  moreover have "filter is_control (drop (length (calls s0)) (calls (snd ?r))) =
      [EvInternalAlloc n, EvCollect, EvInternalAlloc n]"
    unfolding c by (simp add: f1 f2 filter_control_frees)
  moreover have "fst ?r = fst (internal_alloc pf s2 n)"
    by (simp add: record_allocation_fields)
  ultimately show ?thesis using g True col by auto
qed

text \<open>
  Claim C4. The sequence of the claim, one attempt, one collection, one retry and then
  the retry's result, is the one \<^verbatim>\<open>gc_alloc\<close> is written to follow and gc.h
  documents (\<^verbatim>\<open>gc_alloc\<close> "will return 0" when not enough memory can be reclaimed).
  The code leaves it when memory is exhausted: the collection itself asks \<^verbatim>\<open>calloc\<close>
  for its register buffer and uses the pointer unchecked. When the first attempt fails
  and \<^verbatim>\<open>calloc\<close> has no memory for the buffer either, \<^verbatim>\<open>get_registers\<close> stores
  through the null pointer: the collection and \<^verbatim>\<open>gc_alloc\<close> end with the process
  killed, there is no retry, and null is not returned to the caller.
\<close>

theorem gc_alloc_null_register_buffer:
  assumes "gc_init pf c s = Inr s0" and "fst (internal_alloc pf s0 n) = 0"
    and "register_buffer pf (snd (internal_alloc pf s0 n)) = 0"
  shows "gc_collect pf c (snd (internal_alloc pf s0 n)) = Some (Inl NullDereference) \<and>
     gc_alloc pf c s n = Some (Inl NullDereference) \<and>
     returned (gc_alloc pf c s n) = None"
proof -
  let ?s1 = "snd (internal_alloc pf s0 n)"
  have "gc_initialized ?s1"
    using gc_init_Inr_initialized [OF assms(1)] by (simp add: internal_alloc_fields)
  then have "gc_init pf c ?s1 = Inr ?s1" by (rule gc_init_initialized)
  then have col: "gc_collect pf c ?s1 = Some (Inl NullDereference)"
    using assms(3) by (rule gc_collect_no_buffer)
  have g: "gc_alloc pf c s n = Some (Inl NullDereference)"
    using assms by (rule gc_alloc_no_buffer)
  from col g show ?thesis by (simp add: returned_def)
qed

lemma gc_alloc_result:
  assumes "gc_init pf c s = Inr s0"
    and "fst (internal_alloc pf s0 n) = 0 \<longrightarrow>
         register_buffer pf (snd (internal_alloc pf s0 n)) \<noteq> 0"
  shows "\<exists>b. (if fst (internal_alloc pf s0 n) \<noteq> 0 then b = s0
              else gc_collect pf c (snd (internal_alloc pf s0 n)) = Some (Inr b)) \<and>
             gc_initialized b \<and> max_heap_size b = max_heap_size s0 \<and>
             gc_alloc pf c s n = Some (Inr (record_allocation n (internal_alloc pf b n)))"
proof (cases "fst (internal_alloc pf s0 n) = 0")
  case False
  then show ?thesis
    using gc_alloc_first [OF assms(1) False] gc_init_Inr_initialized [OF assms(1)] by auto
next
  case True
  with assms(2) have nz: "register_buffer pf (snd (internal_alloc pf s0 n)) \<noteq> 0" by simp
  from gc_alloc_collection [OF assms(1) True nz] True show ?thesis by auto
qed

lemma update_fresh: "k \<notin> fst ` set A \<Longrightarrow> AList.update k v A = A @ [(k, v)]"
  by (induction A) auto



subsection \<open>What a call of \<^verbatim>\<open>gc_alloc\<close> changes\<close>





subsection \<open>Runs of the small machine\<close>







lemma capless_init: "gc_init pf c capless_state = Inr capless_state"
  by (simp add: gc_init_def capless_state_def gc_debug_set_max_heap_def demo_state_def)

lemma capless_fields:
  "allocations capless_state = [(0x3000, 8), (0x3010, 8), (0x3020, 8)]"
  "current_allocated capless_state = 24"
  "max_heap_size capless_state = 0"
  "calls capless_state = []"
  "gc_initialized capless_state"
  by (simp_all add: capless_state_def gc_debug_set_max_heap_def demo_state_def)






lemma exhausted_first:
  "internal_alloc exhausted_platform capless_state 8 =
     (0, capless_state\<lparr>calls := [EvInternalAlloc 8, EvCalloc 8 0]\<rparr>)"
  by (simp add: internal_alloc_def calloc1_def Let_def capless_fields exhausted_platform_def)

lemma exhausted_buffer: "register_buffer exhausted_platform s = 0"
  by (simp add: register_buffer_def exhausted_platform_def)


subsection \<open>The claims at concrete inputs\<close>




text \<open>
  Claim C4 at a process that holds three blocks, has no cap, and has exhausted the memory
  of \<^verbatim>\<open>calloc\<close>: a request of 8 bytes ends the process in the collection.
\<close>

theorem gc_alloc_null_register_buffer_witness:
  "gc_collect exhausted_platform demo_cpu
     (capless_state\<lparr>calls := [EvInternalAlloc 8, EvCalloc 8 0]\<rparr>) = Some (Inl NullDereference) \<and>
   gc_alloc exhausted_platform demo_cpu capless_state 8 = Some (Inl NullDereference) \<and>
   returned (gc_alloc exhausted_platform demo_cpu capless_state 8) = None"
proof -
  have h2: "fst (internal_alloc exhausted_platform capless_state 8) = 0"
    by (simp add: exhausted_first)
  have h3: "register_buffer exhausted_platform
      (snd (internal_alloc exhausted_platform capless_state 8)) = 0"
    by (rule exhausted_buffer)
  from gc_alloc_null_register_buffer
    [where pf = exhausted_platform and c = demo_cpu and n = 8, OF capless_init h2 h3]
  show ?thesis by (simp add: exhausted_first returned_def)
qed





section \<open>The invariant and the cap\<close>

lemma heap_wf_sum_card:
  "heap_wf A \<Longrightarrow>
   sum_list (map (\<lambda>e. unat (snd e)) A) =
     card (\<Union>e \<in> set A. {unat (fst e) ..< unat (fst e) + unat (snd e)}) \<and>
   (\<Union>e \<in> set A. {unat (fst e) ..< unat (fst e) + unat (snd e)}) \<subseteq> {1 ..< 2 ^ 64}"
proof (induction A)
  case Nil
  show ?case by simp
next
  case (Cons x A)
  let ?blk = "\<lambda>e :: addr \<times> addr. {unat (fst e) ..< unat (fst e) + unat (snd e)}"
  let ?U = "\<Union>e \<in> set A. ?blk e"
  from Cons.prems have bx: "block_ok x" and ap: "list_all (apart x) A" and wf: "heap_wf A"
    by simp_all
  from Cons.IH [OF wf] have ih1: "sum_list (map (\<lambda>e. unat (snd e)) A) = card ?U"
    and ih2: "?U \<subseteq> {1 ..< 2 ^ 64}" by simp_all
  have fin: "finite ?U" by simp
  have dis: "?blk x \<inter> ?U = {}"
  proof -
    have "\<forall>e \<in> set A. ?blk x \<inter> ?blk e = {}"
    proof
      fix e assume "e \<in> set A"
      with ap have "apart x e" by (simp add: list_all_iff)
      then show "?blk x \<inter> ?blk e = {}" by (auto simp: apart_def)
    qed
    then show ?thesis by blast
  qed
  have "card (?blk x \<union> ?U) = card (?blk x) + card ?U"
    using fin dis by (intro card_Un_disjoint) simp_all
  then have s: "sum_list (map (\<lambda>e. unat (snd e)) (x # A)) = card (?blk x \<union> ?U)"
    using ih1 by simp
  have "unat (fst x) \<noteq> 0" using bx by (simp add: block_ok_def unat_eq_0)
  then have sub: "?blk x \<subseteq> {1 ..< 2 ^ 64}"
    using bx by (auto simp: block_ok_def)
  have u: "(\<Union>e \<in> set (x # A). ?blk e) = ?blk x \<union> ?U" by simp
  show ?case unfolding u using s sub ih2 by blast
qed

lemma heap_wf_sum_bound:
  assumes "heap_wf A"
  shows "sum_list (map (\<lambda>e. unat (snd e)) A) < 2 ^ 64"
proof -
  let ?U = "\<Union>e \<in> set A. {unat (fst e) ..< unat (fst e) + unat (snd e)}"
  from heap_wf_sum_card [OF assms]
  have s: "sum_list (map (\<lambda>e. unat (snd e)) A) = card ?U" and sub: "?U \<subseteq> {1 ..< 2 ^ 64}"
    by simp_all
  have "card ?U \<le> card {1 ..< (2 :: nat) ^ 64}"
    using sub by (intro card_mono) simp_all
  also have "\<dots> < 2 ^ 64" by simp
  finally show ?thesis using s by simp
qed

lemma unat_sum_list:
  "sum_list (map (\<lambda>e. unat (snd e)) U) < 2 ^ 64 \<Longrightarrow>
   unat (sum_list (map snd U) :: addr) = sum_list (map (\<lambda>e. unat (snd e)) U)"
proof (induction U)
  case Nil
  show ?case by simp
next
  case (Cons x U)
  then have "sum_list (map (\<lambda>e. unat (snd e)) U) < 2 ^ 64" by simp
  with Cons.IH have ih: "unat (sum_list (map snd U) :: addr) = sum_list (map (\<lambda>e. unat (snd e)) U)"
    by simp
  have "unat (snd x) + unat (sum_list (map snd U) :: addr) < 2 ^ 64"
    using Cons.prems ih by simp
  then have "unat (snd x + sum_list (map snd U)) = unat (snd x) + unat (sum_list (map snd U) :: addr)"
    by (simp add: unat_add_lem [THEN iffD1])
  then show ?case using ih by simp
qed

lemma key_unique:
  assumes "distinct (map fst A)" and "e \<in> set A" and "e' \<in> set A" and "fst e = fst e'"
  shows "e = e'"
proof -
  from assms(2) have "map_of A (fst e) = Some (snd e)"
    using assms(1) by (simp add: map_of_is_SomeI [of A "fst e" "snd e"])
  moreover from assms(3) have "map_of A (fst e') = Some (snd e')"
    using assms(1) by (simp add: map_of_is_SomeI [of A "fst e'" "snd e'"])
  ultimately show ?thesis using assms(4) by (simp add: prod_eq_iff)
qed

lemma sum_split_marked:
  assumes dA: "distinct (map fst A)" and dM: "distinct (map fst M)"
    and ent: "\<forall>e \<in> set M. map_of A (fst e) = Some (snd e)"
  shows "sum_list (map (\<lambda>e. unat (snd e)) A) =
     sum_list (map (\<lambda>e. unat (snd e)) M) + sum_list (map (\<lambda>e. unat (snd e)) (unmarked A M))"
proof -
  let ?f = "\<lambda>e :: addr \<times> addr. unat (snd e)"
  let ?U = "unmarked A M"
  have A: "distinct A" using dA by (rule distinct_map [THEN iffD1, THEN conjunct1])
  have M: "distinct M" using dM by (rule distinct_map [THEN iffD1, THEN conjunct1])
  have U: "distinct ?U" using A by (simp add: unmarked_def)
  have sub: "set M \<subseteq> set A"
  proof
    fix e assume "e \<in> set M"
    with ent have "map_of A (fst e) = Some (snd e)" by simp
    then have "(fst e, snd e) \<in> set A" by (rule map_of_SomeD)
    then show "e \<in> set A" by simp
  qed
  have dis: "set M \<inter> set ?U = {}"
    unfolding unmarked_set by auto
  have un: "set A = set M \<union> set ?U"
  proof
    show "set A \<subseteq> set M \<union> set ?U"
    proof
      fix e assume e: "e \<in> set A"
      show "e \<in> set M \<union> set ?U"
      proof (cases "fst e \<in> fst ` set M")
        case True
        then obtain e' where e': "e' \<in> set M" and k: "fst e' = fst e" by auto
        from sub e' have "e' \<in> set A" by blast
        with dA e k have "e' = e" by (intro key_unique [of A]) simp_all
        with e' show ?thesis by simp
      next
        case False
        with e show ?thesis unfolding unmarked_set by simp
      qed
    qed
    show "set M \<union> set ?U \<subseteq> set A"
      using sub unfolding unmarked_set by auto
  qed
  have "sum_list (map ?f A) = sum ?f (set A)"
    using A by (simp add: sum_list_distinct_conv_sum_set)
  also have "\<dots> = sum ?f (set M) + sum ?f (set ?U)"
    unfolding un using dis by (intro sum.union_disjoint) simp_all
  also have "\<dots> = sum_list (map ?f M) + sum_list (map ?f ?U)"
    using M U by (simp add: sum_list_distinct_conv_sum_set)
  finally show ?thesis .
qed

lemma heap_wf_sub:
  assumes "heap_wf A" and "distinct (map fst M)" and "set M \<subseteq> set A"
  shows "heap_wf M"
  using assms unfolding heap_wf_iff by blast

lemma heap_wf_distinct: "heap_wf A \<Longrightarrow> distinct (map fst A)"
  by (simp add: heap_wf_iff)

lemma sweep_inv:
  assumes inv: "gc_inv s" and ini: "gc_initialized s"
    and eq: "allocations s1 = allocations s" "current_allocated s1 = current_allocated s"
      "gc_initialized s1"
    and dM: "distinct (map fst marked)"
    and ent: "\<forall>e \<in> set marked. map_of (allocations s) (fst e) = Some (snd e)"
  shows "gc_inv (sweep s1 marked) \<and> current_allocated (sweep s1 marked) \<le> current_allocated s"
proof -
  let ?A = "allocations s"
  let ?f = "\<lambda>e :: addr \<times> addr. unat (snd e)"
  let ?U = "unmarked ?A marked"
  from inv ini have wf: "heap_wf ?A"
    and tot: "unat (current_allocated s) = sum_list (map ?f ?A)"
    by (simp_all add: gc_inv_def)
  have sub: "set marked \<subseteq> set ?A"
  proof
    fix e assume "e \<in> set marked"
    with ent have "map_of ?A (fst e) = Some (snd e)" by simp
    then have "(fst e, snd e) \<in> set ?A" by (rule map_of_SomeD)
    then show "e \<in> set ?A" by simp
  qed
  have wfM: "heap_wf marked" using wf dM sub by (rule heap_wf_sub)
  have split: "sum_list (map ?f ?A) = sum_list (map ?f marked) + sum_list (map ?f ?U)"
    using heap_wf_distinct [OF wf] dM ent by (rule sum_split_marked)
  have bound: "sum_list (map ?f ?A) < 2 ^ 64" using wf by (rule heap_wf_sum_bound)
  then have "sum_list (map ?f ?U) < 2 ^ 64" using split by simp
  then have uU: "unat (sum_list (map snd ?U) :: addr) = sum_list (map ?f ?U)"
    by (rule unat_sum_list)
  then have le: "sum_list (map snd ?U) \<le> current_allocated s"
    using split tot by (simp add: word_le_nat_alt)
  then have sub': "unat (current_allocated s - sum_list (map snd ?U)) = sum_list (map ?f marked)"
    using uU split tot by (simp add: unat_sub)
  have "gc_inv (sweep s1 marked)"
    unfolding gc_inv_def sweep_fields eq(1,2) using eq(3) wfM sub' by simp
  moreover have "current_allocated s - sum_list (map snd ?U) \<le> current_allocated s"
    using le by (simp add: word_le_nat_alt unat_sub)
  then have "current_allocated (sweep s1 marked) \<le> current_allocated s"
    unfolding sweep_fields eq(1,2) .
  ultimately show ?thesis by simp
qed

lemma ended_or_simps [simp]:
  "ended_or P None = False"
  "ended_or P (Some (Inl f)) = True"
  "ended_or P (Some (Inr x)) = P x"
  by (simp_all add: ended_or_def)

text \<open>
  The invariant holds in a process that has not called the collector, whatever cap it has
  configured, and initialisation keeps it.
\<close>

lemma gc_debug_set_max_heap_inv: "gc_inv s \<Longrightarrow> gc_inv (gc_debug_set_max_heap s n)"
  by (simp add: gc_inv_def gc_debug_set_max_heap_def)

lemma gc_init_inv:
  assumes "gc_inv s" and "gc_init pf c s = Inr s0"
  shows "gc_inv s0 \<and> gc_initialized s0 \<and> max_heap_size s0 = max_heap_size s \<and>
     current_allocated s0 = current_allocated s"
proof (cases "gc_initialized s")
  case True
  with assms(2) have "s0 = s" by (simp add: gc_init_def)
  with assms(1) True show ?thesis by simp
next
  case False
  obtain kr a l where r: "mach_vm_region pf (get_stack_pointer c) = (kr, a, l)"
    by (cases "mach_vm_region pf (get_stack_pointer c)") auto
  from False assms(2) r have k: "kr = 0"
    by (auto simp: gc_init_def Let_def split: if_splits)
  from False assms(2) r k obtain v where v: "getsegbyname_DATA pf = Some v"
    by (cases "getsegbyname_DATA pf") (auto simp: gc_init_def Let_def)
  from assms(1) False have z: "current_allocated s = 0" by (simp add: gc_inv_def)
  from False assms(2) r k v z show ?thesis
    by (cases v) (auto simp: gc_init_def Let_def gc_inv_def)
qed

lemma gc_collect_inv:
  assumes "gc_inv s"
  shows "ended_or (\<lambda>s'. gc_inv s' \<and> gc_initialized s' \<and> max_heap_size s' = max_heap_size s \<and>
                     current_allocated s' \<le> current_allocated s) (gc_collect pf c s)"
proof (cases "gc_init pf c s")
  case (Inl f)
  then show ?thesis by (simp add: gc_collect_init_fault)
next
  case (Inr s0)
  from gc_init_inv [OF assms Inr] have inv0: "gc_inv s0" and ini0: "gc_initialized s0"
    and m0: "max_heap_size s0 = max_heap_size s"
    and c0: "current_allocated s0 = current_allocated s" by simp_all
  show ?thesis
  proof (cases "register_buffer pf s0 = 0")
    case True
    with Inr show ?thesis by (simp add: gc_collect_no_buffer)
  next
    case False
    let ?b = "register_buffer pf s0"
    let ?m = "marking_state pf c s0\<lparr>calls := calls s0 @ [EvCollect, EvCalloc 120 ?b, EvFree ?b]\<rparr>"
    obtain marked where d: "distinct (map fst marked)"
      and ent: "\<forall>e \<in> set marked. map_of (allocations s0) (fst e) = Some (snd e)"
      and g: "gc_collect pf c s = Some (Inr (sweep ?m marked))"
      using gc_collect_result [OF Inr False] by blast
    have "gc_inv (sweep ?m marked) \<and> current_allocated (sweep ?m marked) \<le> current_allocated s0"
      using inv0 ini0 _ _ _ d ent
      by (rule sweep_inv) (simp_all add: marking_state_eq [OF False] ini0)
    moreover have "max_heap_size (sweep ?m marked) = max_heap_size s0"
      by (simp add: sweep_fields marking_state_eq [OF False])
    moreover have "gc_initialized (sweep ?m marked)"
      using ini0 by (simp add: sweep_fields marking_state_eq [OF False])
    ultimately show ?thesis unfolding g using m0 c0 by simp
  qed
qed

lemma heap_wf_append:
  assumes "heap_wf A" and "block_ok e" and "list_all (apart e) A"
  shows "heap_wf (A @ [e])"
proof -
  have "\<forall>x \<in> set A. apart e x \<and> apart x e \<and> fst x \<noteq> fst e"
    using assms(3) by (auto simp: list_all_iff apart_def)
  then show ?thesis
    using assms(1,2) unfolding heap_wf_iff by auto
qed

lemma register_inv:
  assumes ok: "calloc_ok pf" and inv: "gc_inv b" and ini: "gc_initialized b"
  shows "gc_inv (snd (record_allocation n (internal_alloc pf b n))) \<and>
     gc_initialized (snd (record_allocation n (internal_alloc pf b n))) \<and>
     max_heap_size (snd (record_allocation n (internal_alloc pf b n))) = max_heap_size b \<and>
     (0 < max_heap_size b \<longrightarrow> current_allocated b \<le> max_heap_size b \<longrightarrow>
        current_allocated (snd (record_allocation n (internal_alloc pf b n))) \<le> max_heap_size b)"
proof -
  let ?i = "internal_alloc pf b n"
  let ?r = "record_allocation n ?i"
  let ?p = "fst ?i"
  let ?A = "allocations b"
  let ?f = "\<lambda>e :: addr \<times> addr. unat (snd e)"
  from inv ini have wf: "heap_wf ?A"
    and tot: "unat (current_allocated b) = sum_list (map ?f ?A)"
    by (simp_all add: gc_inv_def)
  have mx: "max_heap_size (snd ?r) = max_heap_size b"
    by (simp add: record_allocation_fields internal_alloc_fields)
  have gi: "gc_initialized (snd ?r)"
    using ini by (simp add: record_allocation_fields internal_alloc_fields)
  show ?thesis
  proof (cases "?p = 0")
    case True
    have "allocations (snd ?r) = ?A" "current_allocated (snd ?r) = current_allocated b"
      using True by (simp_all add: record_allocation_fields internal_alloc_fields)
    then show ?thesis using inv ini gi mx by (simp add: gc_inv_def)
  next
    case False
    let ?b1 = "b\<lparr>calls := calls b @ [EvInternalAlloc n]\<rparr>"
    from False have e: "?p = calloc pf ?b1 n"
      and guard: "\<not> (0 < max_heap_size b \<and> max_heap_size b < current_allocated b + n)"
      unfolding internal_alloc_ptr by (simp_all split: if_splits)
    from False e have nz: "calloc pf ?b1 n \<noteq> 0" by simp
    from ok have "calloc pf ?b1 n \<noteq> 0 \<longrightarrow>
        block_ok (calloc pf ?b1 n, n) \<and> list_all (apart (calloc pf ?b1 n, n)) (allocations ?b1)"
      unfolding calloc_ok_def by blast
    with nz have "block_ok (calloc pf ?b1 n, n)"
      and "list_all (apart (calloc pf ?b1 n, n)) (allocations ?b1)" by simp_all
    then have bo: "block_ok (?p, n)" and ap: "list_all (apart (?p, n)) ?A"
      unfolding e by simp_all
    have fresh: "?p \<notin> fst ` set ?A"
      using ap by (auto simp: list_all_iff apart_def)
    have al: "allocations (snd ?r) = ?A @ [(?p, n)]"
      using False fresh
      by (simp add: record_allocation_fields internal_alloc_fields heapmap_assign_def update_fresh)
    have cu: "current_allocated (snd ?r) = current_allocated b + n"
      using False by (simp add: record_allocation_fields internal_alloc_fields)
    have wf': "heap_wf (?A @ [(?p, n)])" using wf bo ap by (rule heap_wf_append)
    have "sum_list (map ?f (?A @ [(?p, n)])) < 2 ^ 64" using wf' by (rule heap_wf_sum_bound)
    then have "unat (current_allocated b) + unat n < 2 ^ 64" using tot by simp
    then have "unat (current_allocated b + n) = unat (current_allocated b) + unat n"
      by (simp add: unat_add_lem [THEN iffD1])
    then have tot': "unat (current_allocated b + n) = sum_list (map ?f (?A @ [(?p, n)]))"
      using tot by simp
    have "gc_inv (snd ?r)"
      unfolding gc_inv_def al cu using gi wf' tot' by simp
    moreover have "0 < max_heap_size b \<longrightarrow> current_allocated (snd ?r) \<le> max_heap_size b"
      unfolding cu using guard by (auto simp: not_less)
    ultimately show ?thesis using mx gi by simp
  qed
qed

lemma gc_alloc_inv:
  assumes ok: "calloc_ok pf" and inv: "gc_inv s"
    and cap: "0 < max_heap_size s" "current_allocated s \<le> max_heap_size s"
  shows "ended_or (\<lambda>r. gc_inv (snd r) \<and> max_heap_size (snd r) = max_heap_size s \<and>
                     current_allocated (snd r) \<le> max_heap_size s) (gc_alloc pf c s n)"
proof (cases "gc_init pf c s")
  case (Inl f)
  then show ?thesis by (simp add: gc_alloc_init_fault)
next
  case (Inr s0)
  from gc_init_inv [OF inv Inr] have inv0: "gc_inv s0" and ini0: "gc_initialized s0"
    and m0: "max_heap_size s0 = max_heap_size s"
    and c0: "current_allocated s0 = current_allocated s" by simp_all
  let ?s1 = "snd (internal_alloc pf s0 n)"
  show ?thesis
  proof (cases "fst (internal_alloc pf s0 n) = 0 \<and> register_buffer pf ?s1 = 0")
    case True
    then have "gc_alloc pf c s n = Some (Inl NullDereference)"
      using gc_alloc_no_buffer [OF Inr] by blast
    then show ?thesis by simp
  next
    case False
    then have h: "fst (internal_alloc pf s0 n) = 0 \<longrightarrow> register_buffer pf ?s1 \<noteq> 0" by blast
    obtain b where b: "if fst (internal_alloc pf s0 n) \<noteq> 0 then b = s0
                else gc_collect pf c ?s1 = Some (Inr b)"
      and mb: "max_heap_size b = max_heap_size s0"
      and g: "gc_alloc pf c s n = Some (Inr (record_allocation n (internal_alloc pf b n)))"
      using gc_alloc_result [OF Inr h] by blast
    have binv: "gc_inv b \<and> gc_initialized b \<and> current_allocated b \<le> current_allocated s0"
    proof (cases "fst (internal_alloc pf s0 n) = 0")
      case False
      with b inv0 ini0 show ?thesis by simp
    next
      case True
      with b have col: "gc_collect pf c ?s1 = Some (Inr b)" by simp
      have "gc_inv ?s1" using inv0 by (simp add: gc_inv_def internal_alloc_fields)
      from gc_collect_inv [OF this, of pf c]
      show ?thesis unfolding col by (simp add: internal_alloc_fields)
    qed
    then have "current_allocated b \<le> max_heap_size s"
      using cap(2) c0 by (auto intro: order_trans)
    then have cb: "current_allocated b \<le> max_heap_size b" using mb m0 by simp
    have pb: "0 < max_heap_size b" using cap(1) mb m0 by simp
    let ?r = "record_allocation n (internal_alloc pf b n)"
    from register_inv [OF ok binv [THEN conjunct1] binv [THEN conjunct2, THEN conjunct1], of n]
    have "gc_inv (snd ?r)" and "max_heap_size (snd ?r) = max_heap_size s"
      and "current_allocated (snd ?r) \<le> max_heap_size s"
      using pb cb mb m0 by simp_all
    then show ?thesis unfolding g by simp
  qed
qed

lemma ended_or_mono:
  assumes "ended_or P r" and "\<And>x. P x \<Longrightarrow> Q x"
  shows "ended_or Q r"
proof (cases r)
  case None
  with assms(1) show ?thesis by simp
next
  case (Some v)
  with assms show ?thesis by (cases v) simp_all
qed

lemma ended_or_map_snd:
  "ended_or P (map_option (map_sum id snd) r) = ended_or (\<lambda>x. P (snd x)) r"
proof (cases r)
  case None
  then show ?thesis by simp
next
  case (Some v)
  then show ?thesis by (cases v) simp_all
qed

lemma run_inv:
  assumes ok: "calloc_ok pf"
  shows "gc_inv s \<Longrightarrow> 0 < max_heap_size s \<Longrightarrow> current_allocated s \<le> max_heap_size s \<Longrightarrow>
     ended_or (\<lambda>s'. gc_inv s' \<and> max_heap_size s' = max_heap_size s \<and>
                   current_allocated s' \<le> max_heap_size s) (run pf s ops)"
proof (induction ops arbitrary: s)
  case Nil
  then show ?case by simp
next
  case (Cons x ops)
  have st: "ended_or (\<lambda>s1. gc_inv s1 \<and> max_heap_size s1 = max_heap_size s \<and>
                      current_allocated s1 \<le> max_heap_size s) (step pf s x)"
  proof (cases x)
    case (OpAlloc c n)
    from gc_alloc_inv [OF ok Cons.prems, of c n] show ?thesis
      unfolding OpAlloc by (simp add: ended_or_map_snd)
  next
    case (OpCollect c)
    have "ended_or (\<lambda>s'. gc_inv s' \<and> gc_initialized s' \<and> max_heap_size s' = max_heap_size s \<and>
                     current_allocated s' \<le> current_allocated s) (gc_collect pf c s)"
      using Cons.prems(1) by (rule gc_collect_inv)
    then show ?thesis
      unfolding OpCollect step.simps
    proof (rule ended_or_mono)
      fix x
      assume "gc_inv x \<and> gc_initialized x \<and> max_heap_size x = max_heap_size s \<and>
          current_allocated x \<le> current_allocated s"
      then show "gc_inv x \<and> max_heap_size x = max_heap_size s \<and>
          current_allocated x \<le> max_heap_size s"
        using Cons.prems(3) by (auto intro: order_trans)
    qed
  next
    case (OpStore a v)
    from Cons.prems show ?thesis
      unfolding OpStore by (simp add: gc_inv_def)
  qed
  show ?case
  proof (cases "step pf s x")
    case None
    with st show ?thesis by simp
  next
    case (Some v)
    show ?thesis
    proof (cases v)
      case (Inl f)
      with Some show ?thesis by simp
    next
      case (Inr s1)
      from st Some Inr have i1: "gc_inv s1" and m1: "max_heap_size s1 = max_heap_size s"
        and c1: "current_allocated s1 \<le> max_heap_size s" by simp_all
      from Cons.prems(2) m1 have p1: "0 < max_heap_size s1" by simp
      from c1 m1 have c1': "current_allocated s1 \<le> max_heap_size s1" by simp
      from Cons.IH [OF i1 p1 c1'] show ?thesis
        using Some Inr m1 by simp
    qed
  qed
qed

text \<open>
  Claim C6, as amended. Let \<^verbatim>\<open>calloc\<close> keep its contract, and let a program start in
  a state that satisfies the collector's invariant, has a nonzero cap and a total that
  does not exceed the cap; a process that configures its cap before its first allocation
  starts in such a state. Then every run of calls of \<^verbatim>\<open>gc_alloc\<close> and
  \<^verbatim>\<open>gc_collect\<close> and of stores comes to an end, and after every prefix of the run
  either the process has been ended by a fault, or the cap is what it was and the total
  does not exceed it.
\<close>

theorem total_stays_within_cap:
  assumes "calloc_ok pf" and "gc_inv s" and "0 < max_heap_size s"
    and "current_allocated s \<le> max_heap_size s"
  shows "ended_or (\<lambda>s'. max_heap_size s' = max_heap_size s \<and>
                       current_allocated s' \<le> max_heap_size s) (run pf s (take k ops))"
proof -
  let ?r = "run pf s (take k ops)"
  have "ended_or (\<lambda>s'. gc_inv s' \<and> max_heap_size s' = max_heap_size s \<and>
                   current_allocated s' \<le> max_heap_size s) ?r"
    using assms by (rule run_inv)
  then show ?thesis by (rule ended_or_mono) simp
qed

lemma capped_fresh_inv: "gc_inv capped_fresh_state"
  unfolding capped_fresh_state_def
  by (rule gc_debug_set_max_heap_inv) (simp add: gc_inv_def fresh_state_def)

lemma capped_fresh_init:
  "gc_init demo_platform demo_cpu capped_fresh_state = Inr capped_started_state"
  by (simp add: gc_init_def capped_fresh_state_def capped_started_state_def
      gc_debug_set_max_heap_def fresh_state_def demo_platform_def get_stack_pointer_def
      demo_cpu_def Let_def)

lemma capped_started_fields:
  "allocations capped_started_state = []"
  "current_allocated capped_started_state = 0"
  "max_heap_size capped_started_state = 24"
  "calls capped_started_state = []"
  by (simp_all add: capped_started_state_def capped_fresh_state_def
      gc_debug_set_max_heap_def fresh_state_def)

lemma capped_first_ptr:
  "fst (internal_alloc demo_platform capped_started_state 8) = 0x3000"
  unfolding internal_alloc_ptr
  by (simp add: capped_started_fields demo_platform_def arena_calloc_def arena_top_none)

lemma capped_alloc8:
  "gc_alloc demo_platform demo_cpu capped_fresh_state 8 =
     Some (Inr (record_allocation 8 (internal_alloc demo_platform capped_started_state 8)))"
  by (rule gc_alloc_first [OF capped_fresh_init]) (simp add: capped_first_ptr)

text \<open>
  Claim C6, as amended, at a process that sets a cap of 24 bytes and then makes its first
  allocation, of 8 bytes: the run returns, and the total, 8, is within the cap.
\<close>

theorem total_stays_within_cap_witness:
  "\<exists>s'. run demo_platform capped_fresh_state (take 1 [OpAlloc demo_cpu 8, OpCollect demo_cpu]) =
          Some (Inr s') \<and>
     max_heap_size s' = 24 \<and> current_allocated s' = 8 \<and> current_allocated s' \<le> 24"
proof -
  let ?r = "record_allocation 8 (internal_alloc demo_platform capped_started_state 8)"
  have h1: "0 < max_heap_size capped_fresh_state"
    by (simp add: capped_fresh_state_def gc_debug_set_max_heap_def)
  have h2: "current_allocated capped_fresh_state \<le> max_heap_size capped_fresh_state"
    by (simp add: capped_fresh_state_def gc_debug_set_max_heap_def fresh_state_def)
  have m: "max_heap_size capped_fresh_state = 24"
    by (simp add: capped_fresh_state_def gc_debug_set_max_heap_def)
  have r: "run demo_platform capped_fresh_state (take 1 [OpAlloc demo_cpu 8, OpCollect demo_cpu]) =
      Some (Inr (snd ?r))"
    by (simp add: capped_alloc8)
  have c: "current_allocated (snd ?r) = 8"
    by (simp add: record_allocation_fields capped_first_ptr internal_alloc_fields
        capped_started_fields)
  from total_stays_within_cap
    [OF calloc_ok_demo capped_fresh_inv h1 h2, of 1 "[OpAlloc demo_cpu 8, OpCollect demo_cpu]"]
  have "max_heap_size (snd ?r) = 24 \<and> current_allocated (snd ?r) \<le> 24"
    unfolding r m by simp
  with r c show ?thesis by blast
qed

lemma lowered_fields:
  "allocations lowered_state = [(0x3000, 8), (0x3010, 8), (0x3020, 8)]"
  "current_allocated lowered_state = 24"
  "max_heap_size lowered_state = 8"
  "calls lowered_state = []"
  "gc_initialized lowered_state"
  by (simp_all add: lowered_state_def gc_debug_set_max_heap_def demo_state_def)

lemma lowered_gc_inv: "gc_inv lowered_state"
  by (simp add: gc_inv_def lowered_fields block_ok_def apart_def)

lemma lowered_collect:
  "gc_collect demo_platform demo_cpu lowered_state =
     Some (Inr (sweep (lowered_state\<lparr>mem := demo_marking_mem,
                         calls := [EvCollect, EvCalloc 120 0x3030, EvFree 0x3030]\<rparr>)
                  [(0x3000, 8), (0x3010, 8)]))"
proof -
  have e: "demo_state\<lparr>max_heap_size := 8, calls := []\<rparr> = lowered_state"
    by (simp add: lowered_state_def gc_debug_set_max_heap_def demo_state_def)
  have f: "demo_state\<lparr>max_heap_size := 8, mem := demo_marking_mem,
        calls := [] @ [EvCollect, EvCalloc 120 0x3030, EvFree 0x3030]\<rparr> =
      lowered_state\<lparr>mem := demo_marking_mem,
        calls := [EvCollect, EvCalloc 120 0x3030, EvFree 0x3030]\<rparr>"
    by (simp add: lowered_state_def gc_debug_set_max_heap_def)
  show ?thesis
    using demo_like_collect [where h = 8 and cs = "[]"] unfolding e f .
qed

text \<open>
  Claim C6 as the specification states it does not hold. The cap is checked only when a
  block is requested: \<^verbatim>\<open>gc_debug_set_max_heap(8)\<close> in a state that tracks 24 bytes
  leaves a nonzero cap below the total, and after a collection that frees one of the three
  blocks the total is 16, still above the cap of 8.
\<close>

theorem lowered_cap_is_exceeded:
  "gc_inv lowered_state \<and> calloc_ok demo_platform \<and>
   max_heap_size lowered_state = 8 \<and>
   map_option max_heap_size (returned (run demo_platform lowered_state [OpCollect demo_cpu]))
     = Some 8 \<and>
   map_option current_allocated (returned (run demo_platform lowered_state [OpCollect demo_cpu]))
     = Some 16 \<and>
   \<not> (16 :: addr) \<le> 8"
  by (simp add: lowered_gc_inv calloc_ok_demo lowered_fields lowered_collect returned_def
      sweep_fields unmarked_def)


section \<open>Initialisation\<close>

text \<open>
  Claim C9. On the first call, when the query for the stack range fails,
  \<^verbatim>\<open>gc_init\<close> calls \<^verbatim>\<open>exit(1)\<close>; when the stack query succeeds and the lookup of
  the data segment returns null, the read of \<^verbatim>\<open>dataSeg->vmaddr\<close> is a read through
  the null pointer, at which the process is killed. In both cases \<^verbatim>\<open>gc_init\<close>
  produces no state: the calls of \<^verbatim>\<open>gc_alloc\<close> and \<^verbatim>\<open>gc_collect\<close> that ran it end
  there, and nothing is allocated, marked or swept with a root region missing.
\<close>

theorem gc_init_failure_ends_process:
  assumes "\<not> gc_initialized s"
    and "fst (mach_vm_region pf (get_stack_pointer c)) \<noteq> 0 \<or> getsegbyname_DATA pf = None"
  shows "\<exists>f. gc_init pf c s = Inl f \<and>
     f = (if fst (mach_vm_region pf (get_stack_pointer c)) \<noteq> 0 then Exit 1
          else NullDereference) \<and>
     gc_alloc pf c s n = Some (Inl f) \<and>
     gc_collect pf c s = Some (Inl f) \<and>
     returned (gc_alloc pf c s n) = None \<and> returned (gc_collect pf c s) = None"
proof -
  obtain kr a l where r: "mach_vm_region pf (get_stack_pointer c) = (kr, a, l)"
    by (cases "mach_vm_region pf (get_stack_pointer c)") auto
  let ?f = "if kr \<noteq> 0 then Exit 1 else NullDereference"
  have i: "gc_init pf c s = Inl ?f"
    using assms r by (auto simp: gc_init_def Let_def)
  have "gc_alloc pf c s n = Some (Inl ?f)" using i by (rule gc_alloc_init_fault)
  moreover have "gc_collect pf c s = Some (Inl ?f)" using i by (rule gc_collect_init_fault)
  ultimately show ?thesis using i r by (simp add: returned_def)
qed

text \<open>
  Claim C9 at a platform whose stack query fails, and at one whose stack query succeeds
  and whose lookup of the data segment fails.
\<close>

theorem gc_init_failure_ends_process_witness:
  "gc_init nostack_platform demo_cpu fresh_state = Inl (Exit 1) \<and>
   gc_alloc nostack_platform demo_cpu fresh_state 8 = Some (Inl (Exit 1)) \<and>
   gc_init nodata_platform demo_cpu fresh_state = Inl NullDereference \<and>
   gc_collect nodata_platform demo_cpu fresh_state = Some (Inl NullDereference)"
proof -
  have u: "\<not> gc_initialized fresh_state" by (simp add: fresh_state_def)
  have h1: "fst (mach_vm_region nostack_platform (get_stack_pointer demo_cpu)) \<noteq> 0 \<or>
      getsegbyname_DATA nostack_platform = None"
    by (simp add: nostack_platform_def demo_platform_def)
  have h2: "fst (mach_vm_region nodata_platform (get_stack_pointer demo_cpu)) \<noteq> 0 \<or>
      getsegbyname_DATA nodata_platform = None"
    by (simp add: nodata_platform_def demo_platform_def)
  from gc_init_failure_ends_process [OF u h1, of 8]
  have a: "gc_init nostack_platform demo_cpu fresh_state = Inl (Exit 1) \<and>
      gc_alloc nostack_platform demo_cpu fresh_state 8 = Some (Inl (Exit 1))"
    by (simp add: nostack_platform_def demo_platform_def)
  from gc_init_failure_ends_process [OF u h2, of 8]
  have b: "gc_init nodata_platform demo_cpu fresh_state = Inl NullDereference \<and>
      gc_collect nodata_platform demo_cpu fresh_state = Some (Inl NullDereference)"
    by (simp add: nodata_platform_def demo_platform_def)
  from a b show ?thesis by simp
qed

section \<open>The cap at zero\<close>

text \<open>
  Claim C10. After \<^verbatim>\<open>gc_debug_set_max_heap(0)\<close> the cap is off: for every size the
  check of \<^verbatim>\<open>internal_alloc\<close> passes and the request goes to \<^verbatim>\<open>calloc\<close>, whose
  answer is what \<^verbatim>\<open>internal_alloc\<close> returns.
\<close>

theorem zero_max_heap_disables_cap:
  "max_heap_size (gc_debug_set_max_heap s 0) = 0 \<and>
   internal_alloc pf (gc_debug_set_max_heap s 0) n =
     calloc1 pf (gc_debug_set_max_heap s 0\<lparr>calls := calls s @ [EvInternalAlloc n]\<rparr>) n \<and>
   fst (internal_alloc pf (gc_debug_set_max_heap s 0) n) =
     calloc pf (gc_debug_set_max_heap s 0\<lparr>calls := calls s @ [EvInternalAlloc n]\<rparr>) n \<and>
   calls (snd (internal_alloc pf (gc_debug_set_max_heap s 0) n)) =
     calls s @ [EvInternalAlloc n,
       EvCalloc n (calloc pf (gc_debug_set_max_heap s 0\<lparr>calls := calls s @ [EvInternalAlloc n]\<rparr>) n)]"
  by (simp add: gc_debug_set_max_heap_def internal_alloc_def calloc1_def Let_def)

end
